theory Spec2Isabelle
  imports Complex_Main "HOL-Library.Word"
begin

section \<open>Strings and numbers of the source language\<close>

text \<open>
  A TypeScript string is a sequence of UTF-16 code units. Literals of the source are
  written through \<open>ascii\<close>. An \<open>Error\<close> is represented by its \<open>message\<close>
  (every handler of the source reads only \<open>error.message\<close> or \<open>String(error)\<close>).
\<close>

type_synonym jschar = "16 word"
type_synonym jsstring = "jschar list"

definition ascii :: "string \<Rightarrow> jsstring" where
  "ascii s = map of_char s"

text \<open>\<open>a || b\<close> on strings: the empty string is the only falsy string.\<close>

definition orElse :: "jsstring \<Rightarrow> jsstring \<Rightarrow> jsstring" where
  "orElse a b = (if a \<noteq> [] then a else b)"

text \<open>
  Template interpolation of a number that holds a natural number (task ids, sequence
  numbers, \<open>Date.now()\<close>): its decimal digits. (JavaScript prints integers below
  \<open>10^21\<close> this way.)
\<close>

definition digitChar :: "nat \<Rightarrow> jschar" where
  "digitChar d = of_nat (48 + d)"

function showNat :: "nat \<Rightarrow> jsstring" where
  "showNat n = (if n < 10 then [digitChar n] else showNat (n div 10) @ [digitChar (n mod 10)])"
  by pat_completeness auto
termination
  by (relation "measure (\<lambda>n. n)") auto

declare showNat.simps [simp del]

definition showInt :: "int \<Rightarrow> jsstring" where
  "showInt i = (if i < 0 then ascii ''-'' @ showNat (nat (- i)) else showNat (nat i))"

text \<open>
  A JavaScript number is a double: a finite value, an infinity or NaN. \<open>Fin q\<close> stands
  for the finite double nearest to the rational \<open>q\<close>: rounding to the nearest double and
  the sign of zero are not modelled, overflow is. A quotient whose magnitude reaches
  \<open>overflowAt\<close> (the largest double plus half a unit in its last place) is an infinity,
  as IEEE 754 rounds it; a division by zero is an infinity or NaN.
\<close>

datatype jsnum = Fin rat | PosInf | NegInf | NaN


fun jsPositive :: "jsnum \<Rightarrow> bool" where
  "jsPositive (Fin q) = (q > 0)"
| "jsPositive PosInf = True"
| "jsPositive NegInf = False"
| "jsPositive NaN = False"


definition overflowAt :: rat where
  "overflowAt = 2 ^ 1024 - 2 ^ 970"

definition finiteOrOverflow :: "rat \<Rightarrow> jsnum" where
  "finiteOrOverflow q =
     (if overflowAt \<le> q then PosInf else if q \<le> - overflowAt then NegInf else Fin q)"

fun jsDiv :: "jsnum \<Rightarrow> jsnum \<Rightarrow> jsnum" where
  "jsDiv NaN _ = NaN"
| "jsDiv _ NaN = NaN"
| "jsDiv (Fin a) (Fin b) =
     (if b = 0 then (if a = 0 then NaN else if a > 0 then PosInf else NegInf)
      else finiteOrOverflow (a / b))"
| "jsDiv (Fin a) PosInf = Fin 0"
| "jsDiv (Fin a) NegInf = Fin 0"
| "jsDiv PosInf (Fin b) = (if b \<ge> 0 then PosInf else NegInf)"
| "jsDiv NegInf (Fin b) = (if b \<ge> 0 then NegInf else PosInf)"
| "jsDiv PosInf PosInf = NaN"
| "jsDiv PosInf NegInf = NaN"
| "jsDiv NegInf PosInf = NaN"
| "jsDiv NegInf NegInf = NaN"


section \<open>utils.ts: file names\<close>

text \<open>
  The character class of the first \<open>replace\<close> of \<open>sanitizeFileName\<close> holds the
  eight characters slash, colon, star, question mark, double quote, less-than,
  greater-than and bar. (In the source the slash is escaped with a backslash inside the
  regular expression literal; the backslash itself is not a member of the class.)
\<close>

definition isHostile :: "jschar \<Rightarrow> bool" where
  "isHostile c = (c = 0x2F \<or> c = 0x3A \<or> c = 0x2A \<or> c = 0x3F \<or> c = 0x22 \<or> c = 0x3C
     \<or> c = 0x3E \<or> c = 0x7C)"

text \<open>
  The class \<open>\s\<close> of a JavaScript regular expression, which is also what
  \<open>String.prototype.trim\<close> strips: white space and line terminators.
\<close>

definition isSpace :: "jschar \<Rightarrow> bool" where
  "isSpace c = (c = 0x09 \<or> c = 0x0A \<or> c = 0x0B \<or> c = 0x0C \<or> c = 0x0D \<or> c = 0x20
     \<or> c = 0xA0 \<or> c = 0x1680 \<or> (0x2000 \<le> c \<and> c \<le> 0x200A) \<or> c = 0x2028
     \<or> c = 0x2029 \<or> c = 0x202F \<or> c = 0x205F \<or> c = 0x3000 \<or> c = 0xFEFF)"

text \<open>The class of the last \<open>replace\<close>: a dot or \<open>\s\<close>.\<close>

definition isDotOrSpace :: "jschar \<Rightarrow> bool" where
  "isDotOrSpace c = (c = 0x2E \<or> isSpace c)"

text \<open>First \<open>replace\<close> (global): every member of the class becomes one space.\<close>

definition replaceHostile :: "jsstring \<Rightarrow> jsstring" where
  "replaceHostile s = map (\<lambda>c. if isHostile c then 0x20 else c) s"

text \<open>Second \<open>replace\<close> (global, \<open>\s+\<close>): every maximal run of white space becomes one space.\<close>

function collapseWs :: "jsstring \<Rightarrow> jsstring" where
  "collapseWs [] = []"
| "collapseWs (c # cs) =
     (if isSpace c then 0x20 # collapseWs (dropWhile isSpace cs) else c # collapseWs cs)"
  by pat_completeness auto
termination
  by (relation "measure length") (auto simp: less_Suc_eq_le length_dropWhile_le)

text \<open>\<open>trim()\<close>: white space is stripped from both ends.\<close>

definition trim :: "jsstring \<Rightarrow> jsstring" where
  "trim s = rev (dropWhile isSpace (rev (dropWhile isSpace s)))"

text \<open>
  Last \<open>replace\<close> (not global, anchored at the end of the input): the maximal trailing
  run of dots and white space is deleted.
\<close>

definition stripTrailing :: "jsstring \<Rightarrow> jsstring" where
  "stripTrailing s = rev (dropWhile isDotOrSpace (rev s))"

definition sanitizeFileName :: "jsstring \<Rightarrow> jsstring" where
  "sanitizeFileName v = stripTrailing (trim (collapseWs (replaceHostile v)))"

text \<open>
  Shape of a sanitized name: white space occurs only as single, isolated spaces
  (\<open>collapsed\<close>); the name neither starts nor ends with white space (\<open>trimmed\<close>).
\<close>

fun collapsed :: "jsstring \<Rightarrow> bool" where
  "collapsed [] = True"
| "collapsed [c] = (if isSpace c then c = 0x20 else True)"
| "collapsed (c # d # cs) =
     ((if isSpace c then c = 0x20 \<and> \<not> isSpace d else True) \<and> collapsed (d # cs))"

definition trimmed :: "jsstring \<Rightarrow> bool" where
  "trimmed s = (case s of [] \<Rightarrow> True | c # _ \<Rightarrow> \<not> isSpace c \<and> \<not> isSpace (last s))"

definition endsClean :: "jsstring \<Rightarrow> bool" where
  "endsClean s = (case s of [] \<Rightarrow> True | _ # _ \<Rightarrow> \<not> isDotOrSpace (last s))"

definition cleanName :: "jsstring \<Rightarrow> bool" where
  "cleanName s = (list_all (\<lambda>c. \<not> isHostile c) s \<and> collapsed s \<and> trimmed s \<and> endsClean s)"

section \<open>types.ts: tasks and results\<close>

datatype TaskMode = Search | Direct | Playlist

record SongTask =
  task_id :: nat
  task_mode :: TaskMode
  task_query :: jsstring
  task_url :: "jsstring option"
  task_displayTitle :: "jsstring option"
  task_playlistTitle :: "jsstring option"
  task_outputDir :: "jsstring option"
  task_sequenceNumber :: "nat option"

datatype Status = Completed | Skipped | Failed

record TaskResult =
  res_id :: nat
  res_query :: jsstring
  res_url :: jsstring
  res_status :: Status
  res_reason :: "jsstring option"
  res_filePath :: "jsstring option"

text \<open>The two fields of a \<open>VideoSearchResult\<close> that the program reads.\<close>

record VideoSearchResult =
  video_url :: jsstring
  video_title :: jsstring

section \<open>The world outside the program\<close>

text \<open>
  What one run of the stream of \<open>ytdl\<close> piped through \<open>ffmpeg\<close> does: the
  \<open>progress\<close> events of the stream (downloaded, total), and how it ends. It ends
  with an \<open>error\<close> event of the stream, with an \<open>error\<close> event of the encoder, or
  with the encoder's \<open>end\<close> event, after which \<open>fs.move\<close> succeeds (\<open>None\<close>) or
  throws. \<open>core_written\<close> says whether the encoder had already created the output
  file when the run ended with an error.
\<close>

datatype core_end = StreamError jsstring | EncodeError jsstring | EncodeEnd "jsstring option"

record core_run =
  core_ticks :: "(jsnum \<times> jsnum) list"
  core_written :: bool
  core_end :: core_end

text \<open>
  What one run of the yt-dlp tool does: the numeric percentages of its \<open>progress\<close>
  events, and how it ends: the wrapper cannot be loaded (\<open>getYtDlp\<close> throws), the
  runner emits \<open>error\<close>, or it emits \<open>close\<close> with an exit code (\<open>None\<close>: the code
  is not a number). \<open>ytdlp_written\<close> says whether a failed run had already written to its
  output path.
\<close>

datatype ytdlp_end = WrapperError jsstring | RunnerError jsstring | RunnerClose "int option"

record ytdlp_run =
  ytdlp_ticks :: "rat list"
  ytdlp_written :: bool
  ytdlp_end :: ytdlp_end

text \<open>
  The collaborators the program calls, as parameters: the search service, the video
  information service, the URL validator, \<open>path.resolve\<close>, the two extraction tools,
  the clock and the downloads directory. A service that throws returns \<open>Inl\<close> of the
  error's message.
\<close>

record world =
  w_ytSearch :: "jsstring \<Rightarrow> jsstring + VideoSearchResult list"
  w_getBasicInfo :: "jsstring \<Rightarrow> jsstring + jsstring option"
  w_validateURL :: "jsstring \<Rightarrow> bool"
  w_path_resolve :: "jsstring \<Rightarrow> jsstring \<Rightarrow> jsstring"
  w_core :: "jsstring \<Rightarrow> core_run"
  w_ytdlp :: "jsstring \<Rightarrow> ytdlp_run"
  w_now :: nat
  w_DOWNLOADS_DIR :: jsstring

text \<open>
  The effects of the program: the files (a file holds a partial or a complete
  encoding), the removals that were started with \<open>void fs.remove(p)\<close> and not awaited,
  and the trace of the calls made to the outside, in order. Appending to a log,
  \<open>fs.ensureDir\<close>, an awaited \<open>fs.remove\<close> and the progress bars are taken not to
  fail.
\<close>

datatype content = Partial | Complete

datatype event =
    LogFailure jsstring
  | LogSuccess jsstring "jsstring option" "jsstring option"
  | EnsureDir jsstring
  | PrimaryFetch jsstring jsstring jsstring
  | FallbackFetch jsstring jsstring
  | Progress jsnum jsnum jsnum
  | BarCreate jsstring
  | BarStop

record io =
  files :: "jsstring \<Rightarrow> content option"
  unawaited :: "jsstring list"
  trace :: "event list"

definition emit :: "event \<Rightarrow> io \<Rightarrow> io" where
  "emit e s = s\<lparr>trace := trace s @ [e]\<rparr>"

text \<open>\<open>await fs.remove(p)\<close>: the file is gone when the call returns.\<close>

definition fsRemove :: "jsstring \<Rightarrow> io \<Rightarrow> io" where
  "fsRemove p s = s\<lparr>files := (files s)(p := None)\<rparr>"

text \<open>
  \<open>void fs.remove(p)\<close>: the removal is started and its promise dropped; the caller goes
  on without waiting for it.
\<close>

definition startRemove :: "jsstring \<Rightarrow> io \<Rightarrow> io" where
  "startRemove p s = s\<lparr>unawaited := unawaited s @ [p]\<rparr>"


text \<open>\<open>await fs.move(src, dst, {overwrite: true})\<close>, when it succeeds.\<close>

definition fsMove :: "jsstring \<Rightarrow> jsstring \<Rightarrow> io \<Rightarrow> io" where
  "fsMove src dst s = s\<lparr>files := (files s)(dst := files s src, src := None)\<rparr>"

text \<open>The encoder started with \<open>save(p)\<close> writes its output to \<open>p\<close>.\<close>

definition encoderWrites :: "bool \<Rightarrow> content \<Rightarrow> jsstring \<Rightarrow> io \<Rightarrow> io" where
  "encoderWrites written c p s = (if written then s\<lparr>files := (files s)(p \<mapsto> c)\<rparr> else s)"

definition isFallbackFetch :: "event \<Rightarrow> bool" where
  "isFallbackFetch e = (case e of FallbackFetch _ _ \<Rightarrow> True | _ \<Rightarrow> False)"

definition isPrimaryFetch :: "event \<Rightarrow> bool" where
  "isPrimaryFetch e = (case e of PrimaryFetch _ _ _ \<Rightarrow> True | _ \<Rightarrow> False)"

definition fallbackCalls :: "io \<Rightarrow> nat" where
  "fallbackCalls s = length (filter isFallbackFetch (trace s))"

definition primaryCalls :: "io \<Rightarrow> nat" where
  "primaryCalls s = length (filter isPrimaryFetch (trace s))"


section \<open>utils.ts: paths and logs\<close>

definition resolveOutputPath :: "world \<Rightarrow> jsstring \<Rightarrow> jsstring \<Rightarrow> jsstring" where
  "resolveOutputPath w baseName baseDir =
     w_path_resolve w baseDir (sanitizeFileName baseName @ ascii ''.mp3'')"

definition isAlreadyDownloaded :: "io \<Rightarrow> jsstring \<Rightarrow> bool" where
  "isAlreadyDownloaded s filePath = (files s filePath \<noteq> None)"

definition logFailure :: "jsstring \<Rightarrow> io \<Rightarrow> io" where
  "logFailure message s = emit (LogFailure message) s"

definition logSuccess :: "jsstring \<Rightarrow> jsstring option \<Rightarrow> jsstring option \<Rightarrow> io \<Rightarrow> io" where
  "logSuccess filePath playlistTitle playlistFolder s =
     emit (LogSuccess filePath playlistTitle playlistFolder) s"

section \<open>search.ts\<close>

definition findFirstVideo :: "world \<Rightarrow> jsstring \<Rightarrow> jsstring + VideoSearchResult option" where
  "findFirstVideo w query =
     (case w_ytSearch w query of
        Inl e \<Rightarrow> Inl e
      | Inr videos \<Rightarrow> Inr (case videos of [] \<Rightarrow> None | v # _ \<Rightarrow> Some v))"

section \<open>download.ts\<close>

text \<open>
  The handler of the stream's \<open>progress\<close> event computes
  \<open>total > 0 ? downloaded / total : 0\<close> and passes it to \<open>onProgress\<close>.
\<close>

definition progressPercent :: "jsnum \<Rightarrow> jsnum \<Rightarrow> jsnum" where
  "progressPercent downloaded totalBytes =
     (if jsPositive totalBytes then jsDiv downloaded totalBytes else Fin 0)"

definition onStreamProgress :: "io \<Rightarrow> jsnum \<times> jsnum \<Rightarrow> io" where
  "onStreamProgress s tick =
     (case tick of (downloaded, totalBytes) \<Rightarrow>
        emit (Progress (progressPercent downloaded totalBytes) downloaded totalBytes) s)"

text \<open>
  \<open>downloadWithCore\<close>: the encoder saves to \<open>tempPath\<close>. Each error handler starts
  the removal of \<open>tempPath\<close> without awaiting it and rejects; the \<open>end\<close> handler moves
  \<open>tempPath\<close> to \<open>targetPath\<close> and resolves with \<open>targetPath\<close>, or rejects with the
  error of the move. The result is \<open>Inl\<close> of the rejection's message or \<open>Inr\<close> of the
  path, with the state in which the promise settles.
\<close>

definition downloadWithCore ::
  "world \<Rightarrow> jsstring \<Rightarrow> jsstring \<Rightarrow> jsstring \<Rightarrow> io \<Rightarrow> (jsstring + jsstring) \<times> io" where
  "downloadWithCore w url targetPath tempPath s =
     (let run = w_core w url;
          s1 = emit (PrimaryFetch url targetPath tempPath) s;
          s2 = foldl onStreamProgress s1 (core_ticks run)
      in case core_end run of
           StreamError msg \<Rightarrow>
             (Inl msg, startRemove tempPath (encoderWrites (core_written run) Partial tempPath s2))
         | EncodeError msg \<Rightarrow>
             (Inl msg, startRemove tempPath (encoderWrites (core_written run) Partial tempPath s2))
         | EncodeEnd moved \<Rightarrow>
             (let s3 = encoderWrites True Complete tempPath s2
              in case moved of
                   None \<Rightarrow> (Inr targetPath, fsMove tempPath targetPath s3)
                 | Some msg \<Rightarrow> (Inl msg, s3)))"

text \<open>
  \<open>downloadWithYtDlp\<close>: the tool is given \<open>targetPath\<close> itself (\<open>--no-part\<close>). Each
  numeric percentage \<open>n\<close> is reported as \<open>min(1, max(0, n / 100))\<close>; on exit code 0 a
  last report of 1 is added when the last percentage was below 100.
\<close>

definition onYtDlpProgress :: "io \<Rightarrow> rat \<Rightarrow> io" where
  "onYtDlpProgress s n = emit (Progress (Fin (min 1 (max 0 (n / 100)))) (Fin 0) (Fin 0)) s"

definition showCode :: "int option \<Rightarrow> jsstring" where
  "showCode code = (case code of None \<Rightarrow> ascii ''null'' | Some n \<Rightarrow> showInt n)"

definition downloadWithYtDlp ::
  "world \<Rightarrow> jsstring \<Rightarrow> jsstring \<Rightarrow> io \<Rightarrow> (jsstring + jsstring) \<times> io" where
  "downloadWithYtDlp w url targetPath s =
     (let run = w_ytdlp w url;
          s1 = emit (FallbackFetch url targetPath) s
      in case ytdlp_end run of
           WrapperError msg \<Rightarrow> (Inl msg, s1)
         | RunnerError msg \<Rightarrow>
             (Inl msg, encoderWrites (ytdlp_written run) Partial targetPath
                         (foldl onYtDlpProgress s1 (ytdlp_ticks run)))
         | RunnerClose code \<Rightarrow>
             (let s2 = foldl onYtDlpProgress s1 (ytdlp_ticks run);
                  lastPercent = (if ytdlp_ticks run = [] then 0 else last (ytdlp_ticks run))
              in if code \<noteq> Some 0
                 then (Inl (ascii ''yt-dlp exited with code '' @ showCode code),
                       encoderWrites (ytdlp_written run) Partial targetPath s2)
                 else (Inr targetPath,
                       encoderWrites True Complete targetPath
                         (if lastPercent < 100 then emit (Progress (Fin 1) (Fin 0) (Fin 0)) s2
                          else s2))))"

text \<open>
  Matching under the flag \<open>i\<close> against a pattern of ASCII characters: two code units
  match when they are equal after ASCII letters are put in upper case (without the flag
  \<open>u\<close> no character outside ASCII is folded onto an ASCII one).
  \<open>testCI pat msg\<close> is \<open>/pat/i.test(msg)\<close> for a pattern without operators.
\<close>

definition canonCI :: "jschar \<Rightarrow> jschar" where
  "canonCI c = (if 0x61 \<le> c \<and> c \<le> 0x7A then c - 0x20 else c)"

fun prefixCI :: "jsstring \<Rightarrow> jsstring \<Rightarrow> bool" where
  "prefixCI [] _ = True"
| "prefixCI (p # ps) [] = False"
| "prefixCI (p # ps) (c # cs) = (canonCI p = canonCI c \<and> prefixCI ps cs)"

fun testCI :: "jsstring \<Rightarrow> jsstring \<Rightarrow> bool" where
  "testCI pat [] = prefixCI pat []"
| "testCI pat (c # cs) = (prefixCI pat (c # cs) \<or> testCI pat cs)"

definition shouldFallback :: "jsstring \<Rightarrow> bool" where
  "shouldFallback message =
     (testCI (ascii ''Status code: 403'') message \<or> testCI (ascii ''Could not parse'') message
      \<or> testCI (ascii ''decipher'') message)"

text \<open>The name under which \<open>downloadToMp3\<close> stores the file.\<close>

definition safeBase :: "world \<Rightarrow> jsstring \<Rightarrow> jsstring" where
  "safeBase w title =
     (let baseName = (if length title > 0 then title
                      else ascii ''youtube-audio-'' @ showNat (w_now w))
      in orElse (sanitizeFileName baseName) (ascii ''youtube-audio-'' @ showNat (w_now w)))"

definition targetPathOf :: "world \<Rightarrow> jsstring \<Rightarrow> jsstring \<Rightarrow> jsstring" where
  "targetPathOf w title outputDir = w_path_resolve w outputDir (safeBase w title @ ascii ''.mp3'')"

definition tempPathOf :: "jsstring \<Rightarrow> jsstring" where
  "tempPathOf targetPath = targetPath @ ascii ''.part''"

definition downloadToMp3 ::
  "world \<Rightarrow> jsstring \<Rightarrow> jsstring \<Rightarrow> jsstring \<Rightarrow> io \<Rightarrow> (jsstring + jsstring) \<times> io" where
  "downloadToMp3 w url title outputDir s =
     (if \<not> w_validateURL w url then (Inl (ascii ''Invalid YouTube URL''), s)
      else
        (let s1 = emit (EnsureDir outputDir) s;
             targetPath = targetPathOf w title outputDir;
             tempPath = tempPathOf targetPath;
             s2 = fsRemove tempPath s1
         in case downloadWithCore w url targetPath tempPath s2 of
              (Inr finalPath, s3) \<Rightarrow> (Inr finalPath, s3)
            | (Inl err, s3) \<Rightarrow>
                (if \<not> shouldFallback err then (Inl err, s3)
                 else
                   (case downloadWithYtDlp w url targetPath s3 of
                      (Inl err2, s4) \<Rightarrow> (Inl err2, s4)
                    | (Inr fallbackPath, s4) \<Rightarrow>
                        (Inr fallbackPath, emit (Progress (Fin 1) (Fin 0) (Fin 0)) s4)))))"

section \<open>index.ts: one task\<close>

definition truncateTitle :: "jsstring \<Rightarrow> jsstring" where
  "truncateTitle v = (if length v \<le> 42 then v else take 39 v @ ascii ''...'')"

text \<open>
  The first stage of \<open>runTask\<close>, up to the point where the URL and the title are
  known. It ends with the early return of a search without results, with the URL and
  the title, or with a thrown error (its message, and the value \<open>videoUrl\<close> holds when
  the \<open>catch\<close> block runs). A title that is absent or empty is falsy.
\<close>

datatype resolution = NoResults | Resolved jsstring jsstring | Threw jsstring jsstring

definition resolveTask :: "world \<Rightarrow> SongTask \<Rightarrow> resolution" where
  "resolveTask w task =
     (if task_mode task = Direct \<or> task_mode task = Playlist then
        (let videoUrl = (case task_url task of Some u \<Rightarrow> u | None \<Rightarrow> task_query task);
             fromInfo = (case w_getBasicInfo w videoUrl of
                           Inl e \<Rightarrow> Threw e videoUrl
                         | Inr t \<Rightarrow> Resolved videoUrl
                                     (case t of Some x \<Rightarrow> x | None \<Rightarrow> task_query task))
         in if videoUrl = [] then Threw (ascii ''Missing video URL'') videoUrl
            else (case task_displayTitle task of
                    None \<Rightarrow> fromInfo
                  | Some t \<Rightarrow> if t = [] then fromInfo else Resolved videoUrl t))
      else
        (case findFirstVideo w (task_query task) of
           Inl e \<Rightarrow> Threw e (case task_url task of Some u \<Rightarrow> u | None \<Rightarrow> [])
         | Inr None \<Rightarrow> NoResults
         | Inr (Some video) \<Rightarrow> Resolved (video_url video) (video_title video)))"

definition numberPrefix :: "SongTask \<Rightarrow> jsstring" where
  "numberPrefix task =
     (case task_sequenceNumber task of Some n \<Rightarrow> showNat n @ ascii ''. '' | None \<Rightarrow> [])"

definition titledDisplay :: "SongTask \<Rightarrow> jsstring \<Rightarrow> jsstring" where
  "titledDisplay task displayTitle = trim (numberPrefix task @ displayTitle)"

definition fallbackName :: "nat \<Rightarrow> jsstring" where
  "fallbackName n = ascii ''youtube-audio-'' @ showNat n"

definition safeTitle :: "SongTask \<Rightarrow> jsstring \<Rightarrow> jsstring" where
  "safeTitle task displayTitle =
     orElse (sanitizeFileName (titledDisplay task displayTitle)) (fallbackName (task_id task))"

definition targetDir :: "world \<Rightarrow> SongTask \<Rightarrow> jsstring" where
  "targetDir w task = (case task_outputDir task of Some d \<Rightarrow> d | None \<Rightarrow> w_DOWNLOADS_DIR w)"

definition outputPath :: "world \<Rightarrow> SongTask \<Rightarrow> jsstring \<Rightarrow> jsstring" where
  "outputPath w task displayTitle =
     resolveOutputPath w (safeTitle task displayTitle) (targetDir w task)"

definition failedResult :: "SongTask \<Rightarrow> jsstring \<Rightarrow> jsstring \<Rightarrow> TaskResult" where
  "failedResult task url reason =
     \<lparr>res_id = task_id task, res_query = task_query task, res_url = url, res_status = Failed,
      res_reason = Some reason, res_filePath = None\<rparr>"

text \<open>The URL reported by the \<open>catch\<close> block: \<open>videoUrl || task.url || ''\<close>.\<close>

definition caughtUrl :: "SongTask \<Rightarrow> jsstring \<Rightarrow> jsstring" where
  "caughtUrl task videoUrl =
     orElse videoUrl (case task_url task of Some u \<Rightarrow> u | None \<Rightarrow> [])"

text \<open>
  \<open>runTask\<close>. The result of the promise and the state when it settles. The updates of
  the progress bar are display only; its creation and its removal in the \<open>finally\<close>
  block are kept in the trace.
\<close>

definition runTask :: "world \<Rightarrow> SongTask \<Rightarrow> io \<Rightarrow> TaskResult \<times> io" where
  "runTask w task s =
     (case resolveTask w task of
        NoResults \<Rightarrow>
          (let reason = ascii ''No search results''
           in (failedResult task [] reason,
               logFailure (task_query task @ ascii '' :: '' @ reason) s))
      | Threw message videoUrl \<Rightarrow>
          (failedResult task (caughtUrl task videoUrl) message,
           logFailure (task_query task @ ascii '' :: '' @ message) s)
      | Resolved videoUrl displayTitle \<Rightarrow>
          (if isAlreadyDownloaded s (outputPath w task displayTitle) then
             (\<lparr>res_id = task_id task, res_query = task_query task, res_url = videoUrl,
               res_status = Skipped, res_reason = Some (ascii ''Already downloaded''),
               res_filePath = Some (outputPath w task displayTitle)\<rparr>, s)
           else
             (let s1 = emit (BarCreate (truncateTitle (titledDisplay task displayTitle))) s
              in case downloadToMp3 w videoUrl (safeTitle task displayTitle) (targetDir w task) s1 of
                   (Inr finalPath, s2) \<Rightarrow>
                     (\<lparr>res_id = task_id task, res_query = task_query task, res_url = videoUrl,
                       res_status = Completed, res_reason = None,
                       res_filePath = Some finalPath\<rparr>,
                      emit BarStop
                        (logSuccess finalPath
                           (if task_mode task = Playlist then task_playlistTitle task else None)
                           (if task_mode task = Playlist then Some (targetDir w task) else None)
                           s2))
                 | (Inl message, s2) \<Rightarrow>
                     (failedResult task (caughtUrl task videoUrl) message,
                      emit BarStop
                        (logFailure (task_query task @ ascii '' :: '' @ message) s2)))))"

section \<open>index.ts: the session\<close>

text \<open>
  \<open>runDownloadSession\<close> hands every task to the limiter at once, in the order of the
  list, and awaits \<open>Promise.all\<close> of the promises. A state of the session: the
  indices of the tasks still waiting in the limiter's queue, the indices of the tasks
  whose \<open>runTask\<close> is running, and the result of every settled promise under the index
  of its task.
\<close>

record session =
  waiting :: "nat list"
  running :: "nat list"
  settled :: "nat \<Rightarrow> TaskResult option"

definition initial :: "SongTask list \<Rightarrow> session" where
  "initial tasks = \<lparr>waiting = [0..<length tasks], running = [], settled = (\<lambda>_. None)\<rparr>"

text \<open>
  Modelled from the spec: the limiter returned by \<open>pLimit(concurrency)\<close>, a library
  whose code is not part of the repository. The spec calls it a counting admission gate:
  at most \<open>concurrency\<close> invocations run at once, tasks beyond the limit are queued and
  admitted as slots free up.
\<close>

definition gateAdmits :: "nat \<Rightarrow> session \<Rightarrow> bool" where
  "gateAdmits c s = (length (running s) < c)"

text \<open>
  A step of the session: the gate admits the task at the head of the queue, or a running
  task settles, in any order, with the result \<open>runTask\<close> gives in whatever state of the
  world it ran in.
\<close>

inductive step :: "nat \<Rightarrow> SongTask list \<Rightarrow> session \<Rightarrow> session \<Rightarrow> bool"
  for c :: nat and tasks :: "SongTask list" where
  admit: "waiting s = i # q \<Longrightarrow> gateAdmits c s \<Longrightarrow>
            step c tasks s (s\<lparr>waiting := q, running := running s @ [i]\<rparr>)"
| settle_task: "i \<in> set (running s) \<Longrightarrow> r = fst (runTask w (tasks ! i) s0) \<Longrightarrow>
            step c tasks s (s\<lparr>running := removeAll i (running s), settled := (settled s)(i \<mapsto> r)\<rparr>)"

inductive reachable :: "nat \<Rightarrow> SongTask list \<Rightarrow> session \<Rightarrow> bool"
  for c :: nat and tasks :: "SongTask list" where
  start: "reachable c tasks (initial tasks)"
| after: "reachable c tasks s \<Longrightarrow> step c tasks s s' \<Longrightarrow> reachable c tasks s'"

definition finished :: "session \<Rightarrow> bool" where
  "finished s = (waiting s = [] \<and> running s = [])"

text \<open>
  The value of \<open>Promise.all\<close>: once every promise has settled, the results in the order
  of the promises, which is the order of the tasks.
\<close>

definition promiseAll :: "SongTask list \<Rightarrow> session \<Rightarrow> TaskResult list option" where
  "promiseAll tasks s =
     (if finished s then those (map (settled s) [0..<length tasks]) else None)"

text \<open>
  The fallback signatures in the spec's words: the message holds, in any letter case,
  the text of the signature. (\<open>testCI\<close> is the test the code runs.)
\<close>

definition containsCI :: "jsstring \<Rightarrow> jsstring \<Rightarrow> bool" where
  "containsCI pat msg = (\<exists>u v. map canonCI msg = u @ map canonCI pat @ v)"

section \<open>Example inputs\<close>

text \<open>
  A world in which the search finds nothing, every URL is valid, the primary extraction
  fails with a 403 after the encoder has begun to write, and yt-dlp succeeds.
\<close>

definition exWorld :: world where
  "exWorld =
     \<lparr>w_ytSearch = (\<lambda>q. Inr []),
      w_getBasicInfo = (\<lambda>u. Inr (Some (ascii ''Song''))),
      w_validateURL = (\<lambda>u. True),
      w_path_resolve = (\<lambda>d f. d @ ascii ''/'' @ f),
      w_core = (\<lambda>u. \<lparr>core_ticks = [(Fin 5, Fin 0)], core_written = True,
                        core_end = StreamError (ascii ''Status code: 403'')\<rparr>),
      w_ytdlp = (\<lambda>u. \<lparr>ytdlp_ticks = [50], ytdlp_written = False,
                         ytdlp_end = RunnerClose (Some 0)\<rparr>),
      w_now = 0,
      w_DOWNLOADS_DIR = ascii ''downloads''\<rparr>"

text \<open>The same world, but the primary extraction fails with a connection error.\<close>

definition exWorldReset :: world where
  "exWorldReset =
     exWorld\<lparr>w_core := (\<lambda>u. \<lparr>core_ticks = [], core_written = True,
                                 core_end = EncodeError (ascii ''socket hang up'')\<rparr>)\<rparr>"


definition exDirect :: SongTask where
  "exDirect =
     \<lparr>task_id = 1, task_mode = Direct, task_query = ascii ''https://youtu.be/x'',
      task_url = Some (ascii ''https://youtu.be/x''), task_displayTitle = Some (ascii ''Song''),
      task_playlistTitle = None, task_outputDir = None, task_sequenceNumber = None\<rparr>"

definition exSearch :: SongTask where
  "exSearch =
     \<lparr>task_id = 2, task_mode = Search, task_query = ascii ''some song'',
      task_url = None, task_displayTitle = None,
      task_playlistTitle = None, task_outputDir = None, task_sequenceNumber = None\<rparr>"

definition exHostile :: SongTask where
  "exHostile =
     \<lparr>task_id = 7, task_mode = Direct, task_query = ascii ''https://youtu.be/y'',
      task_url = Some (ascii ''https://youtu.be/y''), task_displayTitle = Some (ascii ''/?*''),
      task_playlistTitle = None, task_outputDir = None, task_sequenceNumber = None\<rparr>"

text \<open>A task whose title is a single backslash.\<close>

definition exBackslash :: SongTask where
  "exBackslash =
     \<lparr>task_id = 8, task_mode = Direct, task_query = ascii ''https://youtu.be/z'',
      task_url = Some (ascii ''https://youtu.be/z''), task_displayTitle = Some [0x5C],
      task_playlistTitle = None, task_outputDir = None, task_sequenceNumber = None\<rparr>"

definition exTasks :: "SongTask list" where
  "exTasks = [exDirect, exSearch]"

text \<open>
  States of a session over \<open>exTasks\<close>: the first task admitted; both tasks settled, the
  second one first.
\<close>

definition exAdmitted :: session where
  "exAdmitted = \<lparr>waiting = [1], running = [0], settled = (\<lambda>i. None)\<rparr>"

definition exSettled :: "TaskResult \<Rightarrow> TaskResult \<Rightarrow> session" where
  "exSettled r0 r1 = \<lparr>waiting = [], running = [], settled = ((\<lambda>i. None)(1 \<mapsto> r1))(0 \<mapsto> r0)\<rparr>"

definition exEmpty :: io where
  "exEmpty = \<lparr>files = (\<lambda>p. None), unawaited = [], trace = []\<rparr>"

definition exHave :: io where
  "exHave =
     \<lparr>files = (\<lambda>p. if p = ascii ''downloads/Song.mp3'' then Some Complete else None),
      unawaited = [], trace = []\<rparr>"

section \<open>Decimal digits\<close>

lemma unat_digitChar: "d < 10 \<Longrightarrow> unat (digitChar d) = 48 + d"
proof -
  assume "d < 10"
  have "unat (digitChar d) = (48 + d) mod 2 ^ LENGTH(16)"
    by (simp only: digitChar_def unat_of_nat)
  with \<open>d < 10\<close> show ?thesis by simp
qed

lemma digitChar_inj:
  assumes "a < 10" and "b < 10" and "digitChar a = digitChar b"
  shows "a = b"
proof -
  from assms(3) have "unat (digitChar a) = unat (digitChar b)" by (rule arg_cong)
  then have "48 + a = 48 + b"
    by (simp only: unat_digitChar [OF assms(1)] unat_digitChar [OF assms(2)])
  then show ?thesis by simp
qed

lemma digitChar_range: "d < 10 \<Longrightarrow> 0x30 \<le> digitChar d \<and> digitChar d \<le> 0x39"
  using unat_digitChar [of d] by (simp add: word_le_nat_alt)

lemma showNat_nonempty: "showNat n \<noteq> []"
  by (subst showNat.simps) simp

lemma showNat_digits: "c \<in> set (showNat n) \<Longrightarrow> 0x30 \<le> c \<and> c \<le> 0x39"
proof (induction n rule: showNat.induct)
  case (1 n)
  show ?case
  proof (cases "n < 10")
    case True
    with "1.prems" have "c = digitChar n" by (subst (asm) showNat.simps) simp
    with True show ?thesis using digitChar_range by blast
  next
    case False
    with "1.prems" have "c \<in> set (showNat (n div 10)) \<or> c = digitChar (n mod 10)"
      by (subst (asm) showNat.simps) auto
    then show ?thesis
    proof
      assume "c \<in> set (showNat (n div 10))"
      with False "1.IH" show ?thesis by blast
    next
      assume "c = digitChar (n mod 10)"
      then show ?thesis using digitChar_range [of "n mod 10"] by simp
    qed
  qed
qed

lemma showNat_inj: "showNat m = showNat n \<Longrightarrow> m = n"
proof (induction m arbitrary: n rule: showNat.induct)
  case (1 m)
  show ?case
  proof (cases "m < 10")
    case m: True
    show ?thesis
    proof (cases "n < 10")
      case True
      with m "1.prems" have "digitChar m = digitChar n"
        by (subst (asm) showNat.simps, subst (asm) (2) showNat.simps) simp
      with m True show ?thesis by (rule digitChar_inj)
    next
      case False
      with m "1.prems" have "[digitChar m] = showNat (n div 10) @ [digitChar (n mod 10)]"
        by (subst (asm) showNat.simps, subst (asm) (2) showNat.simps) simp
      then have "showNat (n div 10) = []" by simp
      then show ?thesis using showNat_nonempty by blast
    qed
  next
    case m: False
    show ?thesis
    proof (cases "n < 10")
      case True
      with m "1.prems" have "showNat (m div 10) @ [digitChar (m mod 10)] = [digitChar n]"
        by (subst (asm) showNat.simps, subst (asm) (2) showNat.simps) simp
      then have "showNat (m div 10) = []" by simp
      then show ?thesis using showNat_nonempty by blast
    next
      case False
      with m "1.prems" have
        "showNat (m div 10) @ [digitChar (m mod 10)] = showNat (n div 10) @ [digitChar (n mod 10)]"
        by (subst (asm) showNat.simps, subst (asm) (2) showNat.simps) simp
      then have a: "showNat (m div 10) = showNat (n div 10)"
        and b: "digitChar (m mod 10) = digitChar (n mod 10)" by simp_all
      from a m "1.IH" have "m div 10 = n div 10" by blast
      moreover from b have "m mod 10 = n mod 10" by (intro digitChar_inj) simp_all
      ultimately show ?thesis by (metis div_mult_mod_eq)
    qed
  qed
qed

section \<open>Sanitized file names\<close>

subsection \<open>Shape of a sanitized name\<close>

lemma space_not_hostile: "\<not> isHostile 0x20"
  by (simp add: isHostile_def)

lemma space_isSpace: "isSpace 0x20"
  by (simp add: isSpace_def)

lemma replaceHostile_none: "list_all (\<lambda>c. \<not> isHostile c) (replaceHostile s)"
  by (induction s) (simp_all add: replaceHostile_def space_not_hostile)

lemma set_dropWhile_subset: "set (dropWhile P xs) \<subseteq> set xs"
  using set_dropWhileD by fastforce

lemma set_rev_dropWhile_rev: "set (rev (dropWhile P (rev xs))) \<subseteq> set xs"
  using set_dropWhile_subset [of P "rev xs"] by simp

lemma set_collapseWs: "set (collapseWs s) \<subseteq> insert 0x20 (set s)"
proof (induction s rule: collapseWs.induct)
  case 1
  then show ?case by simp
next
  case (2 c cs)
  show ?case
  proof (cases "isSpace c")
    case True
    with 2 have "set (collapseWs (dropWhile isSpace cs)) \<subseteq> insert 0x20 (set (dropWhile isSpace cs))"
      by simp
    with set_dropWhile_subset [of isSpace cs] True show ?thesis by auto
  next
    case False
    with 2 show ?thesis by auto
  qed
qed

lemma set_trim: "set (trim s) \<subseteq> set s"
  unfolding trim_def
  using set_rev_dropWhile_rev [of isSpace "dropWhile isSpace s"] set_dropWhile_subset [of isSpace s]
  by (rule subset_trans)

lemma set_stripTrailing: "set (stripTrailing s) \<subseteq> set s"
  unfolding stripTrailing_def by (rule set_rev_dropWhile_rev)

lemma set_sanitizeFileName: "set (sanitizeFileName v) \<subseteq> insert 0x20 (set (replaceHostile v))"
proof -
  have "set (sanitizeFileName v) \<subseteq> set (trim (collapseWs (replaceHostile v)))"
    unfolding sanitizeFileName_def by (rule set_stripTrailing)
  also have "\<dots> \<subseteq> set (collapseWs (replaceHostile v))" by (rule set_trim)
  also have "\<dots> \<subseteq> insert 0x20 (set (replaceHostile v))" by (rule set_collapseWs)
  finally show ?thesis .
qed

lemma sanitize_no_hostile: "list_all (\<lambda>c. \<not> isHostile c) (sanitizeFileName v)"
  using set_sanitizeFileName [of v] replaceHostile_none [of v] space_not_hostile
  by (auto simp: list_all_iff)

lemma collapseWs_head:
  "collapseWs t = x # r \<Longrightarrow> t \<noteq> [] \<and> x = (if isSpace (hd t) then 0x20 else hd t)"
  by (cases t) (auto split: if_splits)

lemma collapsed_Cons:
  "collapsed (c # cs) =
     ((if isSpace c then c = 0x20 \<and> (case cs of [] \<Rightarrow> True | d # _ \<Rightarrow> \<not> isSpace d) else True)
      \<and> collapsed cs)"
  by (cases cs) auto

lemma dropWhile_head: "dropWhile P cs = d # ds \<Longrightarrow> \<not> P d"
  using hd_dropWhile [of P cs] by auto

lemma collapsed_collapseWs: "collapsed (collapseWs s)"
proof (induction s rule: collapseWs.induct)
  case 1
  then show ?case by simp
next
  case (2 c cs)
  show ?case
  proof (cases "isSpace c")
    case True
    let ?t = "dropWhile isSpace cs"
    from 2 True have ih: "collapsed (collapseWs ?t)" by simp
    have "case collapseWs ?t of [] \<Rightarrow> True | d # _ \<Rightarrow> \<not> isSpace d"
    proof (cases "collapseWs ?t")
      case Nil
      then show ?thesis by simp
    next
      case (Cons x r)
      from collapseWs_head [OF Cons]
      have ne: "?t \<noteq> []" and x: "x = (if isSpace (hd ?t) then 0x20 else hd ?t)"
        by simp_all
      from ne have "\<not> isSpace (hd ?t)" by (simp add: hd_dropWhile)
      with x Cons show ?thesis by simp
    qed
    with ih True show ?thesis
      by (simp add: collapsed_Cons space_isSpace)
  next
    case False
    with 2 show ?thesis by (simp add: collapsed_Cons)
  qed
qed

lemma collapsed_append: "collapsed (a @ b) \<Longrightarrow> collapsed a \<and> collapsed b"
proof (induction a)
  case Nil
  then show ?case by simp
next
  case (Cons c a)
  then show ?case
    by (cases a) (auto simp: collapsed_Cons split: list.splits if_splits)
qed

lemma rev_dropWhile_rev_prefix:
  "rev (dropWhile P (rev s)) @ rev (takeWhile P (rev s)) = s"
proof -
  have "rev (takeWhile P (rev s) @ dropWhile P (rev s)) = s" by simp
  then show ?thesis by (simp only: rev_append)
qed

lemma collapsed_dropWhile: "collapsed s \<Longrightarrow> collapsed (dropWhile P s)"
  using collapsed_append [of "takeWhile P s" "dropWhile P s"] by simp

lemma collapsed_rev_dropWhile_rev: "collapsed s \<Longrightarrow> collapsed (rev (dropWhile P (rev s)))"
  using collapsed_append [of "rev (dropWhile P (rev s))" "rev (takeWhile P (rev s))"]
  by (simp only: rev_dropWhile_rev_prefix)

lemma collapsed_trim: "collapsed s \<Longrightarrow> collapsed (trim s)"
  by (simp add: trim_def collapsed_dropWhile collapsed_rev_dropWhile_rev)

lemma collapsed_stripTrailing: "collapsed s \<Longrightarrow> collapsed (stripTrailing s)"
  by (simp add: stripTrailing_def collapsed_rev_dropWhile_rev)

lemma rev_dropWhile_rev_last:
  assumes "rev (dropWhile P (rev s)) = c # cs"
  shows "\<not> P (last (c # cs))"
proof -
  from assms have ne: "dropWhile P (rev s) \<noteq> []" by auto
  then have "\<not> P (hd (dropWhile P (rev s)))" by (simp add: hd_dropWhile)
  moreover have "last (rev (dropWhile P (rev s))) = hd (dropWhile P (rev s))"
    using ne by (simp add: last_rev)
  ultimately show ?thesis using assms by simp
qed

lemma rev_dropWhile_rev_hd:
  assumes "rev (dropWhile P (rev s)) = c # cs"
  shows "\<exists>t. s = c # t"
proof -
  have "(c # cs) @ rev (takeWhile P (rev s)) = s"
    using rev_dropWhile_rev_prefix [of P s] assms by simp
  then have "s = c # (cs @ rev (takeWhile P (rev s)))" by simp
  then show ?thesis ..
qed

lemma trimmed_trim: "trimmed (trim s)"
proof (cases "trim s")
  case Nil
  then show ?thesis by (simp add: trimmed_def)
next
  case (Cons c cs)
  then have l: "\<not> isSpace (last (c # cs))"
    unfolding trim_def by (rule rev_dropWhile_rev_last)
  from Cons have "rev (dropWhile isSpace (rev (dropWhile isSpace s))) = c # cs"
    by (simp add: trim_def)
  from rev_dropWhile_rev_hd [OF this] obtain t where "dropWhile isSpace s = c # t" ..
  then have "\<not> isSpace c" by (rule dropWhile_head)
  with l Cons show ?thesis by (simp add: trimmed_def)
qed

lemma stripTrailing_shape:
  assumes "trimmed s"
  shows "trimmed (stripTrailing s) \<and> endsClean (stripTrailing s)"
proof (cases "stripTrailing s")
  case Nil
  then show ?thesis by (simp add: trimmed_def endsClean_def)
next
  case (Cons c cs)
  then have l: "\<not> isDotOrSpace (last (c # cs))"
    unfolding stripTrailing_def by (rule rev_dropWhile_rev_last)
  from Cons have "rev (dropWhile isDotOrSpace (rev s)) = c # cs"
    by (simp add: stripTrailing_def)
  from rev_dropWhile_rev_hd [OF this] obtain t where "s = c # t" ..
  with assms have "\<not> isSpace c" by (simp add: trimmed_def)
  with l Cons show ?thesis by (simp add: trimmed_def endsClean_def isDotOrSpace_def)
qed

lemma cleanName_sanitize: "cleanName (sanitizeFileName v)"
proof -
  let ?t = "trim (collapseWs (replaceHostile v))"
  have "collapsed (stripTrailing ?t)"
    by (simp add: collapsed_stripTrailing collapsed_trim collapsed_collapseWs)
  moreover have "trimmed ?t" by (rule trimmed_trim)
  ultimately show ?thesis
    using stripTrailing_shape [of ?t] sanitize_no_hostile [of v]
    by (simp add: cleanName_def sanitizeFileName_def)
qed

subsection \<open>A clean name is a fixed point\<close>

lemma replaceHostile_id: "list_all (\<lambda>c. \<not> isHostile c) s \<Longrightarrow> replaceHostile s = s"
  by (induction s) (simp_all add: replaceHostile_def)

lemma collapseWs_id: "collapsed s \<Longrightarrow> collapseWs s = s"
proof (induction s rule: collapseWs.induct)
  case 1
  then show ?case by simp
next
  case (2 c cs)
  show ?case
  proof (cases "isSpace c")
    case True
    with "2.prems" have c: "c = 0x20" and hd: "case cs of [] \<Rightarrow> True | d # _ \<Rightarrow> \<not> isSpace d"
      and cs: "collapsed cs"
      by (simp_all add: collapsed_Cons)
    from hd have "dropWhile isSpace cs = cs" by (cases cs) simp_all
    with 2 True cs c show ?thesis by simp
  next
    case False
    with 2 show ?thesis by (simp add: collapsed_Cons)
  qed
qed

lemma rev_dropWhile_rev_id:
  assumes "s = [] \<or> \<not> P (last s)"
  shows "rev (dropWhile P (rev s)) = s"
proof (cases s rule: rev_cases)
  case Nil
  then show ?thesis by simp
next
  case (snoc ys y)
  with assms have "\<not> P y" by simp
  with snoc show ?thesis by simp
qed

lemma trim_id: "trimmed s \<Longrightarrow> trim s = s"
proof (cases s)
  case Nil
  then show ?thesis by (simp add: trim_def)
next
  case (Cons c cs)
  assume "trimmed s"
  with Cons have a: "\<not> isSpace c" and b: "\<not> isSpace (last s)" by (simp_all add: trimmed_def)
  from a Cons have "dropWhile isSpace s = s" by simp
  moreover from b have "rev (dropWhile isSpace (rev s)) = s"
    by (intro rev_dropWhile_rev_id) simp
  ultimately show ?thesis by (simp add: trim_def)
qed

lemma stripTrailing_id: "endsClean s \<Longrightarrow> stripTrailing s = s"
  unfolding stripTrailing_def
  by (rule rev_dropWhile_rev_id) (cases s; simp add: endsClean_def)

lemma sanitize_cleanName_id: "cleanName s \<Longrightarrow> sanitizeFileName s = s"
  unfolding cleanName_def sanitizeFileName_def
  by (simp add: replaceHostile_id collapseWs_id trim_id stripTrailing_id)

text \<open>
  C5: the sanitization of file names is idempotent: sanitizing a sanitized name gives it
  back.
\<close>

theorem sanitizeFileName_idempotent:
  "sanitizeFileName (sanitizeFileName x) = sanitizeFileName x"
  by (rule sanitize_cleanName_id) (rule cleanName_sanitize)

theorem sanitizeFileName_idempotent_witness:
  "sanitizeFileName (sanitizeFileName (ascii '' a/b:  c?. . '')) = ascii ''a b c''"
proof -
  have "sanitizeFileName (ascii '' a/b:  c?. . '') = ascii ''a b c''"
    by (simp add: sanitizeFileName_def replaceHostile_def trim_def stripTrailing_def
        isHostile_def isSpace_def isDotOrSpace_def ascii_def)
  then show ?thesis
    using sanitizeFileName_idempotent [of "ascii '' a/b:  c?. . ''"] by simp
qed

text \<open>
  C6: at the name \<open>a\b\<close> (the letter a, a backslash, the letter b) the sanitized
  result is the input itself: the backslash stays in the name.
\<close>

theorem sanitizeFileName_keeps_backslash:
  "sanitizeFileName [0x61, 0x5C, 0x62] = [0x61, 0x5C, 0x62]
   \<and> 0x5C \<in> set (sanitizeFileName [0x61, 0x5C, 0x62])"
  by (simp add: sanitizeFileName_def replaceHostile_def trim_def stripTrailing_def
      isHostile_def isSpace_def isDotOrSpace_def)

subsection \<open>The base name of the output file\<close>

lemma stripTrailing_all: "list_all isDotOrSpace s \<Longrightarrow> stripTrailing s = []"
  by (simp add: stripTrailing_def list_all_iff)

lemma sanitize_empty:
  assumes "list_all (\<lambda>c. isHostile c \<or> isDotOrSpace c) s"
  shows "sanitizeFileName s = []"
proof -
  have "list_all isDotOrSpace (replaceHostile s)"
    using assms space_isSpace by (auto simp: replaceHostile_def isDotOrSpace_def list_all_iff)
  moreover have "set (trim (collapseWs (replaceHostile s))) \<subseteq> insert 0x20 (set (replaceHostile s))"
    using set_trim [of "collapseWs (replaceHostile s)"] set_collapseWs [of "replaceHostile s"]
    by (rule subset_trans)
  ultimately have "list_all isDotOrSpace (trim (collapseWs (replaceHostile s)))"
    using space_isSpace by (auto simp: list_all_iff isDotOrSpace_def)
  then show ?thesis
    unfolding sanitizeFileName_def by (rule stripTrailing_all)
qed

lemma no_space_collapsed: "list_all (\<lambda>c. \<not> isSpace c) s \<Longrightarrow> collapsed s"
  by (induction s) (simp_all add: collapsed_Cons)

lemma plain_cleanName:
  assumes "s \<noteq> []" and "list_all (\<lambda>c. \<not> isSpace c \<and> \<not> isHostile c \<and> c \<noteq> 0x2E) s"
  shows "cleanName s"
proof -
  from assms(2) have ns: "list_all (\<lambda>c. \<not> isSpace c) s" and nh: "list_all (\<lambda>c. \<not> isHostile c) s"
    by (simp_all add: list_all_iff)
  from assms(1) have "hd s \<in> set s" and "last s \<in> set s" by simp_all
  with assms(2) have "\<not> isSpace (hd s)" and "\<not> isSpace (last s)" and "last s \<noteq> 0x2E"
    by (simp_all add: list_all_iff)
  with assms(1) have "trimmed s" and "endsClean s"
    by (cases s; simp add: trimmed_def endsClean_def isDotOrSpace_def)+
  with ns nh show ?thesis by (simp add: cleanName_def no_space_collapsed)
qed

lemma digit_plain:
  assumes "0x30 \<le> c \<and> c \<le> (0x39 :: jschar)"
  shows "\<not> isSpace c \<and> \<not> isHostile c \<and> c \<noteq> 0x2E"
  using assms unfolding isSpace_def isHostile_def
  by (auto simp: word_le_nat_alt)

lemma fallbackName_plain:
  "list_all (\<lambda>c. \<not> isSpace c \<and> \<not> isHostile c \<and> c \<noteq> 0x2E) (fallbackName n)"
proof -
  have "list_all (\<lambda>c. \<not> isSpace c \<and> \<not> isHostile c \<and> c \<noteq> 0x2E) (ascii ''youtube-audio-'')"
    by (simp add: ascii_def isSpace_def isHostile_def)
  moreover have "list_all (\<lambda>c. \<not> isSpace c \<and> \<not> isHostile c \<and> c \<noteq> 0x2E) (showNat n)"
    using showNat_digits digit_plain by (auto simp: list_all_iff)
  ultimately show ?thesis by (simp add: fallbackName_def)
qed

lemma fallbackName_nonempty: "fallbackName n \<noteq> []"
  by (simp add: fallbackName_def showNat_nonempty)

lemma cleanName_fallbackName: "cleanName (fallbackName n)"
  by (rule plain_cleanName) (rule fallbackName_nonempty, rule fallbackName_plain)

lemma fallbackName_inj: "fallbackName m = fallbackName n \<Longrightarrow> m = n"
  by (simp add: fallbackName_def showNat_inj)

lemma safeTitle_clean: "cleanName (safeTitle task title) \<and> safeTitle task title \<noteq> []"
  by (simp add: safeTitle_def orElse_def cleanName_sanitize cleanName_fallbackName
      fallbackName_nonempty)

lemma safeBase_clean: "cleanName s \<Longrightarrow> s \<noteq> [] \<Longrightarrow> safeBase w s = s"
  by (simp add: safeBase_def orElse_def sanitize_cleanName_id)

lemma titledDisplay_hostile:
  assumes "task_sequenceNumber task = None" and "list_all isHostile title"
  shows "sanitizeFileName (titledDisplay task title) = []"
proof -
  have "set (titledDisplay task title) \<subseteq> set title"
    using assms(1) set_trim [of title] by (simp add: titledDisplay_def numberPrefix_def)
  with assms(2) have "list_all (\<lambda>c. isHostile c \<or> isDotOrSpace c) (titledDisplay task title)"
    by (auto simp: list_all_iff)
  then show ?thesis by (rule sanitize_empty)
qed

text \<open>
  What holds of the base name for every task: it is never empty, it is the name
  \<open>resolveOutputPath\<close> and \<open>downloadToMp3\<close> store the file under, and when the
  sanitized title is empty (as for a title without a sequence number made only of the
  eight characters of the class \<open>isHostile\<close>) it is the fallback name built from the
  task's id, which differs between tasks with different ids.
\<close>

lemma safeTitle_shape:
  "safeTitle task title \<noteq> []
   \<and> sanitizeFileName (safeTitle task title) = safeTitle task title
   \<and> safeBase w (safeTitle task title) = safeTitle task title
   \<and> (sanitizeFileName (titledDisplay task title) = []
        \<longrightarrow> safeTitle task title = fallbackName (task_id task))
   \<and> (task_sequenceNumber task = None \<and> list_all isHostile title
        \<longrightarrow> safeTitle task title = fallbackName (task_id task))
   \<and> (task_id task \<noteq> task_id task' \<longrightarrow> fallbackName (task_id task) \<noteq> fallbackName (task_id task'))"
  using safeTitle_clean [of task title] titledDisplay_hostile [of task title]
    fallbackName_inj [of "task_id task" "task_id task'"]
  by (auto simp: sanitize_cleanName_id safeBase_clean safeTitle_def orElse_def)

lemma safeTitle_shape_example:
  "safeTitle exHostile (ascii ''/?*'') = ascii ''youtube-audio-7''
   \<and> sanitizeFileName (ascii ''youtube-audio-7'') = ascii ''youtube-audio-7''
   \<and> safeBase exWorld (ascii ''youtube-audio-7'') = ascii ''youtube-audio-7''
   \<and> fallbackName 7 \<noteq> fallbackName 1"
proof -
  let ?t = "safeTitle exHostile (ascii ''/?*'')"
  have f: "fallbackName 7 = ascii ''youtube-audio-7''"
    by (simp add: fallbackName_def showNat.simps [of 7] digitChar_def ascii_def)
  have h: "task_sequenceNumber exHostile = None \<and> list_all isHostile (ascii ''/?*'')"
    by (simp add: exHostile_def isHostile_def ascii_def)
  have i: "task_id exHostile = 7" and j: "task_id exDirect = 1"
    by (simp_all add: exHostile_def exDirect_def)
  then have n: "task_id exHostile \<noteq> task_id exDirect" by simp
  note th = safeTitle_shape [of exHostile "ascii ''/?*''" exWorld exDirect]
  from th h have "?t = fallbackName (task_id exHostile)" by blast
  then have e: "?t = ascii ''youtube-audio-7''" by (simp only: i f)
  from th have "sanitizeFileName ?t = ?t" and "safeBase exWorld ?t = ?t" by blast+
  then have b: "sanitizeFileName (ascii ''youtube-audio-7'') = ascii ''youtube-audio-7''"
    and c: "safeBase exWorld (ascii ''youtube-audio-7'') = ascii ''youtube-audio-7''"
    by (simp_all only: e)
  have g: "fallbackName 7 \<noteq> fallbackName 1"
    using th n unfolding i j by blast
  from e b c g show ?thesis by (intro conjI)
qed

text \<open>
  C7: at the title made of a single backslash, an illegal character by the spec's list,
  the sanitized title is the backslash itself, not the empty string: the base name is
  not replaced by the fallback name, and the output file is resolved from the backslash.
\<close>

theorem safeTitle_keeps_backslash_title:
  "resolveTask exWorld exBackslash = Resolved (ascii ''https://youtu.be/z'') [0x5C]
   \<and> sanitizeFileName (titledDisplay exBackslash [0x5C]) = [0x5C]
   \<and> safeTitle exBackslash [0x5C] = [0x5C]
   \<and> safeTitle exBackslash [0x5C] \<noteq> fallbackName (task_id exBackslash)
   \<and> outputPath exWorld exBackslash [0x5C] = ascii ''downloads/'' @ [0x5C] @ ascii ''.mp3''"
proof -
  have r: "resolveTask exWorld exBackslash = Resolved (ascii ''https://youtu.be/z'') [0x5C]"
    by (simp add: resolveTask_def exBackslash_def ascii_def)
  have t: "titledDisplay exBackslash [0x5C] = [0x5C]"
    by (simp add: titledDisplay_def numberPrefix_def exBackslash_def trim_def isSpace_def)
  have k: "sanitizeFileName [0x5C] = [0x5C]"
    by (simp add: sanitizeFileName_def replaceHostile_def trim_def stripTrailing_def
        isHostile_def isSpace_def isDotOrSpace_def)
  from t k have st: "safeTitle exBackslash [0x5C] = [0x5C]"
    by (simp add: safeTitle_def orElse_def)
  have "hd (fallbackName (task_id exBackslash)) = 0x79"
    by (simp add: fallbackName_def ascii_def)
  moreover have "hd [0x5C :: jschar] \<noteq> 0x79" by simp
  ultimately have ne: "[0x5C] \<noteq> fallbackName (task_id exBackslash)" by metis
  from st k have op: "outputPath exWorld exBackslash [0x5C] = ascii ''downloads/'' @ [0x5C] @ ascii ''.mp3''"
    by (simp add: outputPath_def resolveOutputPath_def) (simp add: targetDir_def exBackslash_def exWorld_def ascii_def)
  from r t k st ne op show ?thesis by simp
qed

section \<open>The task runner\<close>

subsection \<open>One task\<close>

lemma runTask_skip:
  assumes "resolveTask w task = Resolved videoUrl displayTitle"
    and "isAlreadyDownloaded s (outputPath w task displayTitle)"
  shows "runTask w task s =
    (\<lparr>res_id = task_id task, res_query = task_query task, res_url = videoUrl,
      res_status = Skipped, res_reason = Some (ascii ''Already downloaded''),
      res_filePath = Some (outputPath w task displayTitle)\<rparr>, s)"
  using assms by (simp add: runTask_def)

text \<open>
  C1 (amended): when the first stage of \<open>runTask\<close> has resolved the URL and the title and
  the resolved output path exists at the skip check, the result is terminal with status
  skipped, the reason \<open>Already downloaded\<close> (with a capital A) and the resolved path as
  file path; the state is left as it was, so neither the primary nor the fallback fetch
  is invoked.
\<close>

theorem runTask_skips_existing:
  assumes "resolveTask w task = Resolved videoUrl displayTitle"
    and "isAlreadyDownloaded s (outputPath w task displayTitle)"
  shows "fst (runTask w task s) =
      \<lparr>res_id = task_id task, res_query = task_query task, res_url = videoUrl,
        res_status = Skipped, res_reason = Some (ascii ''Already downloaded''),
        res_filePath = Some (outputPath w task displayTitle)\<rparr>
    \<and> snd (runTask w task s) = s
    \<and> primaryCalls (snd (runTask w task s)) = primaryCalls s
    \<and> fallbackCalls (snd (runTask w task s)) = fallbackCalls s"
  by (simp add: runTask_skip [OF assms])

lemmas ex_run_defs = runTask_def resolveTask_def exWorld_def exDirect_def exSearch_def
  exEmpty_def exHave_def sanitizeFileName_def replaceHostile_def trim_def stripTrailing_def
  isHostile_def isSpace_def isDotOrSpace_def ascii_def isAlreadyDownloaded_def outputPath_def
  resolveOutputPath_def safeTitle_def titledDisplay_def numberPrefix_def orElse_def
  targetDir_def findFirstVideo_def

lemma exDirect_resolved:
  "resolveTask exWorld exDirect = Resolved (ascii ''https://youtu.be/x'') (ascii ''Song'')"
  by (simp add: resolveTask_def exDirect_def ascii_def)

lemma exDirect_outputPath:
  "outputPath exWorld exDirect (ascii ''Song'') = ascii ''downloads/Song.mp3''"
  by (simp add: ex_run_defs)

lemma exDirect_downloaded:
  "isAlreadyDownloaded exHave (outputPath exWorld exDirect (ascii ''Song''))"
  by (simp add: exDirect_outputPath) (simp add: isAlreadyDownloaded_def exHave_def)

theorem runTask_skips_existing_witness:
  "fst (runTask exWorld exDirect exHave) =
      \<lparr>res_id = 1, res_query = ascii ''https://youtu.be/x'', res_url = ascii ''https://youtu.be/x'',
        res_status = Skipped, res_reason = Some (ascii ''Already downloaded''),
        res_filePath = Some (ascii ''downloads/Song.mp3'')\<rparr>
   \<and> snd (runTask exWorld exDirect exHave) = exHave
   \<and> fallbackCalls (snd (runTask exWorld exDirect exHave)) = 0
   \<and> primaryCalls (snd (runTask exWorld exDirect exHave)) = 0"
proof -
  have t: "task_id exDirect = 1" "task_query exDirect = ascii ''https://youtu.be/x''"
    by (simp_all add: exDirect_def)
  have z: "primaryCalls exHave = 0" "fallbackCalls exHave = 0"
    by (simp_all add: primaryCalls_def fallbackCalls_def exHave_def)
  from runTask_skips_existing [OF exDirect_resolved exDirect_downloaded]
  show ?thesis by (simp add: exDirect_outputPath t z)
qed

text \<open>
  The claim as the spec states it, with the reason \<open>already downloaded\<close>, fails: the
  task \<open>exDirect\<close> is skipped with another reason.
\<close>

theorem runTask_skip_reason_counterexample:
  "resolveTask exWorld exDirect = Resolved (ascii ''https://youtu.be/x'') (ascii ''Song'')
   \<and> isAlreadyDownloaded exHave (outputPath exWorld exDirect (ascii ''Song''))
   \<and> res_status (fst (runTask exWorld exDirect exHave)) = Skipped
   \<and> res_reason (fst (runTask exWorld exDirect exHave)) \<noteq> Some (ascii ''already downloaded'')"
proof -
  have "res_reason (fst (runTask exWorld exDirect exHave)) = Some (ascii ''Already downloaded'')"
    and "res_status (fst (runTask exWorld exDirect exHave)) = Skipped"
    by (simp_all add: runTask_skip [OF exDirect_resolved exDirect_downloaded])
  moreover have "ascii ''Already downloaded'' \<noteq> ascii ''already downloaded''"
    by (simp add: ascii_def)
  ultimately show ?thesis
    using exDirect_resolved exDirect_downloaded by simp
qed

lemma resolveTask_no_results:
  assumes "task_mode task = Search" and "w_ytSearch w (task_query task) = Inr []"
  shows "resolveTask w task = NoResults"
  using assms by (simp add: resolveTask_def findFirstVideo_def)

lemma search_without_results:
  assumes "task_mode task = Search" and "w_ytSearch w (task_query task) = Inr []"
  shows "runTask w task s =
    (\<lparr>res_id = task_id task, res_query = task_query task, res_url = [],
      res_status = Failed, res_reason = Some (ascii ''No search results''),
      res_filePath = None\<rparr>,
     logFailure (task_query task @ ascii '' :: '' @ ascii ''No search results'') s)"
  by (simp add: runTask_def resolveTask_no_results [OF assms] failedResult_def Let_def)

lemma logFailure_calls:
  "primaryCalls (logFailure m s) = primaryCalls s \<and> fallbackCalls (logFailure m s) = fallbackCalls s"
  by (simp add: logFailure_def emit_def primaryCalls_def fallbackCalls_def
      isPrimaryFetch_def isFallbackFetch_def)

text \<open>
  C8 (amended): when the search of a search-mode task returns no video, the result is
  terminal with status failed, the reason \<open>No search results\<close>, the empty URL and no
  file path; the only effect is the line in the failure log, so no fetch is invoked.
\<close>

theorem runTask_no_results:
  assumes "task_mode task = Search" and "w_ytSearch w (task_query task) = Inr []"
  shows "fst (runTask w task s) =
      \<lparr>res_id = task_id task, res_query = task_query task, res_url = [],
        res_status = Failed, res_reason = Some (ascii ''No search results''),
        res_filePath = None\<rparr>
    \<and> snd (runTask w task s) =
        logFailure (task_query task @ ascii '' :: '' @ ascii ''No search results'') s
    \<and> primaryCalls (snd (runTask w task s)) = primaryCalls s
    \<and> fallbackCalls (snd (runTask w task s)) = fallbackCalls s"
  by (simp add: search_without_results [OF assms] logFailure_calls)

lemma exSearch_mode: "task_mode exSearch = Search"
  by (simp add: exSearch_def)

lemma exSearch_nothing: "w_ytSearch exWorld (task_query exSearch) = Inr []"
  by (simp add: exWorld_def)

theorem runTask_no_results_witness:
  "res_status (fst (runTask exWorld exSearch exEmpty)) = Failed
   \<and> res_reason (fst (runTask exWorld exSearch exEmpty)) = Some (ascii ''No search results'')
   \<and> res_url (fst (runTask exWorld exSearch exEmpty)) = []
   \<and> trace (snd (runTask exWorld exSearch exEmpty)) =
       [LogFailure (ascii ''some song :: No search results'')]
   \<and> primaryCalls (snd (runTask exWorld exSearch exEmpty)) = 0
   \<and> fallbackCalls (snd (runTask exWorld exSearch exEmpty)) = 0"
proof -
  have z: "primaryCalls exEmpty = 0" "fallbackCalls exEmpty = 0"
    by (simp_all add: primaryCalls_def fallbackCalls_def exEmpty_def)
  have l: "trace (logFailure (task_query exSearch @ ascii '' :: '' @ ascii ''No search results'') exEmpty)
      = [LogFailure (ascii ''some song :: No search results'')]"
    by (simp add: logFailure_def emit_def exEmpty_def exSearch_def ascii_def)
  note th = runTask_no_results [OF exSearch_mode exSearch_nothing, of exEmpty]
  from th have "fst (runTask exWorld exSearch exEmpty) =
      \<lparr>res_id = task_id exSearch, res_query = task_query exSearch, res_url = [],
        res_status = Failed, res_reason = Some (ascii ''No search results''),
        res_filePath = None\<rparr>" by blast
  then have a: "res_status (fst (runTask exWorld exSearch exEmpty)) = Failed"
    and b: "res_reason (fst (runTask exWorld exSearch exEmpty)) = Some (ascii ''No search results'')"
    and c: "res_url (fst (runTask exWorld exSearch exEmpty)) = []"
    by simp_all
  from th have "snd (runTask exWorld exSearch exEmpty) =
      logFailure (task_query exSearch @ ascii '' :: '' @ ascii ''No search results'') exEmpty"
    by blast
  then have d: "trace (snd (runTask exWorld exSearch exEmpty)) =
      [LogFailure (ascii ''some song :: No search results'')]"
    by (simp only: l)
  from th have "primaryCalls (snd (runTask exWorld exSearch exEmpty)) = primaryCalls exEmpty"
    and "fallbackCalls (snd (runTask exWorld exSearch exEmpty)) = fallbackCalls exEmpty"
    by blast+
  then have "primaryCalls (snd (runTask exWorld exSearch exEmpty)) = 0"
    and "fallbackCalls (snd (runTask exWorld exSearch exEmpty)) = 0"
    by (simp_all only: z)
  with a b c d show ?thesis by (intro conjI)
qed

text \<open>
  The claim as the spec states it, with the reason \<open>no results\<close>, fails: the task
  \<open>exSearch\<close>, whose search returns no video, fails with another reason.
\<close>

theorem runTask_no_results_reason_counterexample:
  "task_mode exSearch = Search
   \<and> w_ytSearch exWorld (task_query exSearch) = Inr []
   \<and> res_status (fst (runTask exWorld exSearch exEmpty)) = Failed
   \<and> res_reason (fst (runTask exWorld exSearch exEmpty)) \<noteq> Some (ascii ''no results'')"
proof -
  have "res_reason (fst (runTask exWorld exSearch exEmpty)) = Some (ascii ''No search results'')"
    and "res_status (fst (runTask exWorld exSearch exEmpty)) = Failed"
    by (simp_all add: search_without_results [OF exSearch_mode exSearch_nothing])
  moreover have "ascii ''No search results'' \<noteq> ascii ''no results''"
    by (simp add: ascii_def)
  ultimately show ?thesis
    using exSearch_mode exSearch_nothing by simp
qed

section \<open>The fetch and its fallback\<close>

subsection \<open>Counting the fetches\<close>

lemma calls_emit:
  "primaryCalls (emit e s) = primaryCalls s + (if isPrimaryFetch e then 1 else 0)"
  "fallbackCalls (emit e s) = fallbackCalls s + (if isFallbackFetch e then 1 else 0)"
  by (simp_all add: emit_def primaryCalls_def fallbackCalls_def)

lemma calls_fs:
  "primaryCalls (fsRemove p s) = primaryCalls s"
  "fallbackCalls (fsRemove p s) = fallbackCalls s"
  "primaryCalls (startRemove p s) = primaryCalls s"
  "fallbackCalls (startRemove p s) = fallbackCalls s"
  "primaryCalls (fsMove p q s) = primaryCalls s"
  "fallbackCalls (fsMove p q s) = fallbackCalls s"
  "primaryCalls (encoderWrites b c p s) = primaryCalls s"
  "fallbackCalls (encoderWrites b c p s) = fallbackCalls s"
  by (simp_all add: fsRemove_def startRemove_def fsMove_def encoderWrites_def
      primaryCalls_def fallbackCalls_def)

lemma calls_progress:
  "primaryCalls (emit (Progress a b c) s) = primaryCalls s"
  "fallbackCalls (emit (Progress a b c) s) = fallbackCalls s"
  by (simp_all add: calls_emit isPrimaryFetch_def isFallbackFetch_def)

lemma calls_stream_ticks:
  "primaryCalls (foldl onStreamProgress s ticks) = primaryCalls s
   \<and> fallbackCalls (foldl onStreamProgress s ticks) = fallbackCalls s"
  by (induction ticks arbitrary: s)
    (simp_all add: onStreamProgress_def calls_progress split: prod.splits)

lemma calls_ytdlp_ticks:
  "primaryCalls (foldl onYtDlpProgress s ticks) = primaryCalls s
   \<and> fallbackCalls (foldl onYtDlpProgress s ticks) = fallbackCalls s"
  by (induction ticks arbitrary: s) (simp_all add: onYtDlpProgress_def calls_progress)

lemma downloadWithCore_calls:
  "primaryCalls (snd (downloadWithCore w url t tmp s)) = primaryCalls s + 1
   \<and> fallbackCalls (snd (downloadWithCore w url t tmp s)) = fallbackCalls s"
  by (simp add: downloadWithCore_def Let_def calls_fs calls_stream_ticks calls_emit
      isPrimaryFetch_def isFallbackFetch_def split: core_end.splits option.splits)

lemma downloadWithCore_result:
  "fst (downloadWithCore w url t tmp s) =
     (case core_end (w_core w url) of
        StreamError m \<Rightarrow> Inl m
      | EncodeError m \<Rightarrow> Inl m
      | EncodeEnd None \<Rightarrow> Inr t
      | EncodeEnd (Some m) \<Rightarrow> Inl m)"
  by (simp add: downloadWithCore_def Let_def split: core_end.splits option.splits)

lemma downloadWithYtDlp_calls:
  "primaryCalls (snd (downloadWithYtDlp w url t s)) = primaryCalls s
   \<and> fallbackCalls (snd (downloadWithYtDlp w url t s)) = fallbackCalls s + 1"
  by (simp add: downloadWithYtDlp_def Let_def calls_fs calls_ytdlp_ticks calls_emit
      calls_progress isPrimaryFetch_def isFallbackFetch_def split: ytdlp_end.splits)

lemma downloadToMp3_failed_primary:
  assumes "w_validateURL w url"
    and "fst (downloadWithCore w url (targetPathOf w title dir)
           (tempPathOf (targetPathOf w title dir))
           (fsRemove (tempPathOf (targetPathOf w title dir)) (emit (EnsureDir dir) s))) = Inl msg"
  shows "primaryCalls (snd (downloadToMp3 w url title dir s)) = primaryCalls s + 1
    \<and> fallbackCalls (snd (downloadToMp3 w url title dir s)) =
        fallbackCalls s + (if shouldFallback msg then 1 else 0)
    \<and> (\<not> shouldFallback msg \<longrightarrow> fst (downloadToMp3 w url title dir s) = Inl msg)"
proof -
  let ?t = "targetPathOf w title dir"
  let ?s2 = "fsRemove (tempPathOf ?t) (emit (EnsureDir dir) s)"
  obtain r s3 where core: "downloadWithCore w url ?t (tempPathOf ?t) ?s2 = (r, s3)"
    by (cases "downloadWithCore w url ?t (tempPathOf ?t) ?s2")
  with assms(2) have r: "r = Inl msg" by simp
  from downloadWithCore_calls [of w url ?t "tempPathOf ?t" ?s2] core
  have c3: "primaryCalls s3 = primaryCalls s + 1" "fallbackCalls s3 = fallbackCalls s"
    by (simp_all add: calls_fs calls_emit isPrimaryFetch_def isFallbackFetch_def)
  show ?thesis
  proof (cases "shouldFallback msg")
    case False
    with assms(1) core r c3 show ?thesis
      by (simp add: downloadToMp3_def Let_def)
  next
    case True
    obtain r4 s4 where yt: "downloadWithYtDlp w url ?t s3 = (r4, s4)"
      by (cases "downloadWithYtDlp w url ?t s3")
    with downloadWithYtDlp_calls [of w url ?t s3] c3
    have "primaryCalls s4 = primaryCalls s + 1" "fallbackCalls s4 = fallbackCalls s + 1"
      by simp_all
    with assms(1) core r True yt show ?thesis
      by (cases r4) (simp_all add: downloadToMp3_def Let_def calls_progress)
  qed
qed

lemma downloadToMp3_calls_le:
  "fallbackCalls (snd (downloadToMp3 w url title dir s)) \<le> fallbackCalls s + 1"
proof (cases "w_validateURL w url")
  case False
  then show ?thesis by (simp add: downloadToMp3_def)
next
  case True
  let ?t = "targetPathOf w title dir"
  let ?s2 = "fsRemove (tempPathOf ?t) (emit (EnsureDir dir) s)"
  obtain r s3 where core: "downloadWithCore w url ?t (tempPathOf ?t) ?s2 = (r, s3)"
    by (cases "downloadWithCore w url ?t (tempPathOf ?t) ?s2")
  show ?thesis
  proof (cases r)
    case (Inl msg)
    with core have "fst (downloadWithCore w url ?t (tempPathOf ?t) ?s2) = Inl msg" by simp
    from downloadToMp3_failed_primary [OF True this] show ?thesis by simp
  next
    case (Inr path)
    from downloadWithCore_calls [of w url ?t "tempPathOf ?t" ?s2] core
    have "fallbackCalls s3 = fallbackCalls s"
      by (simp add: calls_fs calls_emit isFallbackFetch_def)
    with True core Inr show ?thesis by (simp add: downloadToMp3_def Let_def)
  qed
qed

lemma runTask_calls_le: "fallbackCalls (snd (runTask w task s)) \<le> fallbackCalls s + 1"
proof (cases "resolveTask w task")
  case NoResults
  then show ?thesis
    by (simp add: runTask_def Let_def logFailure_def calls_emit isFallbackFetch_def)
next
  case (Threw m u)
  then show ?thesis
    by (simp add: runTask_def logFailure_def calls_emit isFallbackFetch_def)
next
  case (Resolved u t)
  show ?thesis
  proof (cases "isAlreadyDownloaded s (outputPath w task t)")
    case True
    with Resolved show ?thesis by (simp add: runTask_def)
  next
    case False
    let ?s1 = "emit (BarCreate (truncateTitle (titledDisplay task t))) s"
    obtain r s2 where d: "downloadToMp3 w u (safeTitle task t) (targetDir w task) ?s1 = (r, s2)"
      by (cases "downloadToMp3 w u (safeTitle task t) (targetDir w task) ?s1")
    with downloadToMp3_calls_le [of w u "safeTitle task t" "targetDir w task" ?s1]
    have "fallbackCalls s2 \<le> fallbackCalls s + 1"
      by (simp add: calls_emit isFallbackFetch_def)
    with Resolved False d show ?thesis
      by (cases r)
        (simp_all add: runTask_def Let_def logFailure_def logSuccess_def calls_emit
          isFallbackFetch_def)
  qed
qed

subsection \<open>The fallback signatures\<close>

lemma prefixCI_iff: "prefixCI p s = (\<exists>v. map canonCI s = map canonCI p @ v)"
  by (induction p s rule: prefixCI.induct) auto

lemma testCI_iff: "testCI p s = containsCI p s"
proof (induction s)
  case Nil
  show ?case by (cases p) (simp_all add: containsCI_def)
next
  case (Cons c cs)
  have "containsCI p (c # cs) = (prefixCI p (c # cs) \<or> containsCI p cs)"
  proof
    assume "containsCI p (c # cs)"
    then obtain u v where uv: "canonCI c # map canonCI cs = u @ map canonCI p @ v"
      by (auto simp: containsCI_def)
    show "prefixCI p (c # cs) \<or> containsCI p cs"
    proof (cases u)
      case Nil
      with uv have "prefixCI p (c # cs)" by (simp add: prefixCI_iff)
      then show ?thesis ..
    next
      case (Cons x u')
      with uv have "map canonCI cs = u' @ map canonCI p @ v" by simp
      then have "containsCI p cs" unfolding containsCI_def by blast
      then show ?thesis ..
    qed
  next
    assume "prefixCI p (c # cs) \<or> containsCI p cs"
    then show "containsCI p (c # cs)"
    proof
      assume "prefixCI p (c # cs)"
      then obtain v where "map canonCI (c # cs) = [] @ map canonCI p @ v"
        by (auto simp: prefixCI_iff)
      then show ?thesis unfolding containsCI_def by blast
    next
      assume "containsCI p cs"
      then obtain u v where "map canonCI cs = u @ map canonCI p @ v"
        by (auto simp: containsCI_def)
      then have "map canonCI (c # cs) = (canonCI c # u) @ map canonCI p @ v" by simp
      then show ?thesis unfolding containsCI_def by blast
    qed
  qed
  with Cons show ?case by simp
qed

lemma shouldFallback_iff:
  "shouldFallback msg =
     (containsCI (ascii ''Status code: 403'') msg \<or> containsCI (ascii ''Could not parse'') msg
      \<or> containsCI (ascii ''decipher'') msg)"
  by (simp only: shouldFallback_def testCI_iff)

text \<open>
  C2: when the URL is valid and the primary fetch fails with the message \<open>msg\<close> (an error
  of the stream, an error of the encoder, or an error of the final move), the primary
  fetch has run once and the fallback fetch runs once if \<open>msg\<close> holds one of the three
  signatures, in any letter case, and not at all otherwise; in the latter case the error
  \<open>msg\<close> itself is the result. No task invokes the fallback more than once.
\<close>

theorem downloadToMp3_fallback_once:
  assumes "w_validateURL w url"
    and "core_end (w_core w url) = StreamError msg \<or> core_end (w_core w url) = EncodeError msg
         \<or> core_end (w_core w url) = EncodeEnd (Some msg)"
  shows "primaryCalls (snd (downloadToMp3 w url title dir s)) = primaryCalls s + 1
    \<and> fallbackCalls (snd (downloadToMp3 w url title dir s)) =
        fallbackCalls s + (if shouldFallback msg then 1 else 0)
    \<and> (\<not> shouldFallback msg \<longrightarrow> fst (downloadToMp3 w url title dir s) = Inl msg)
    \<and> shouldFallback msg =
        (containsCI (ascii ''Status code: 403'') msg \<or> containsCI (ascii ''Could not parse'') msg
         \<or> containsCI (ascii ''decipher'') msg)
    \<and> fallbackCalls (snd (runTask w task s)) \<le> fallbackCalls s + 1"
proof -
  from assms(2) have "fst (downloadWithCore w url (targetPathOf w title dir)
           (tempPathOf (targetPathOf w title dir))
           (fsRemove (tempPathOf (targetPathOf w title dir)) (emit (EnsureDir dir) s))) = Inl msg"
    by (auto simp: downloadWithCore_result)
  from downloadToMp3_failed_primary [OF assms(1) this] shouldFallback_iff [of msg]
    runTask_calls_le [of w task s]
  show ?thesis by blast
qed

lemma shouldFallback_403: "shouldFallback (ascii ''Status code: 403'')"
  by (simp add: shouldFallback_def ascii_def canonCI_def)

lemma shouldFallback_reset: "\<not> shouldFallback (ascii ''socket hang up'')"
  by (simp add: shouldFallback_def ascii_def canonCI_def)

lemma shouldFallback_case: "shouldFallback (ascii ''Error: could NOT PARSE decipher function'')"
  by (simp add: shouldFallback_def ascii_def canonCI_def)

theorem downloadToMp3_fallback_once_witness:
  "primaryCalls (snd (downloadToMp3 exWorld (ascii ''https://youtu.be/x'') (ascii ''Song'')
      (ascii ''downloads'') exEmpty)) = 1
   \<and> fallbackCalls (snd (downloadToMp3 exWorld (ascii ''https://youtu.be/x'') (ascii ''Song'')
      (ascii ''downloads'') exEmpty)) = 1
   \<and> fallbackCalls (snd (downloadToMp3 exWorldReset (ascii ''https://youtu.be/x'') (ascii ''Song'')
      (ascii ''downloads'') exEmpty)) = 0
   \<and> fst (downloadToMp3 exWorldReset (ascii ''https://youtu.be/x'') (ascii ''Song'')
      (ascii ''downloads'') exEmpty) = Inl (ascii ''socket hang up'')"
proof -
  let ?u = "ascii ''https://youtu.be/x''"
  have z: "primaryCalls exEmpty = 0" "fallbackCalls exEmpty = 0"
    by (simp_all add: primaryCalls_def fallbackCalls_def exEmpty_def)
  have v: "w_validateURL exWorld ?u" "w_validateURL exWorldReset ?u"
    by (simp_all add: exWorld_def exWorldReset_def)
  have e1: "core_end (w_core exWorld ?u) = StreamError (ascii ''Status code: 403'')
      \<or> core_end (w_core exWorld ?u) = EncodeError (ascii ''Status code: 403'')
      \<or> core_end (w_core exWorld ?u) = EncodeEnd (Some (ascii ''Status code: 403''))"
    by (simp add: exWorld_def)
  have e2: "core_end (w_core exWorldReset ?u) = StreamError (ascii ''socket hang up'')
      \<or> core_end (w_core exWorldReset ?u) = EncodeError (ascii ''socket hang up'')
      \<or> core_end (w_core exWorldReset ?u) = EncodeEnd (Some (ascii ''socket hang up''))"
    by (simp add: exWorldReset_def exWorld_def)
  note a = downloadToMp3_fallback_once [OF v(1) e1, of "ascii ''Song''" "ascii ''downloads''" exEmpty]
  note b = downloadToMp3_fallback_once [OF v(2) e2, of "ascii ''Song''" "ascii ''downloads''" exEmpty]
  from a have "primaryCalls (snd (downloadToMp3 exWorld ?u (ascii ''Song'')
      (ascii ''downloads'') exEmpty)) = primaryCalls exEmpty + 1"
    and "fallbackCalls (snd (downloadToMp3 exWorld ?u (ascii ''Song'')
      (ascii ''downloads'') exEmpty)) =
        fallbackCalls exEmpty + (if shouldFallback (ascii ''Status code: 403'') then 1 else 0)"
    by blast+
  then have a': "primaryCalls (snd (downloadToMp3 exWorld ?u (ascii ''Song'')
      (ascii ''downloads'') exEmpty)) = 1"
    "fallbackCalls (snd (downloadToMp3 exWorld ?u (ascii ''Song'')
      (ascii ''downloads'') exEmpty)) = 1"
    by (simp_all add: z shouldFallback_403)
  from b have "fallbackCalls (snd (downloadToMp3 exWorldReset ?u (ascii ''Song'')
      (ascii ''downloads'') exEmpty)) =
        fallbackCalls exEmpty + (if shouldFallback (ascii ''socket hang up'') then 1 else 0)"
    and "\<not> shouldFallback (ascii ''socket hang up'') \<longrightarrow>
      fst (downloadToMp3 exWorldReset ?u (ascii ''Song'') (ascii ''downloads'') exEmpty)
        = Inl (ascii ''socket hang up'')"
    by blast+
  then have b': "fallbackCalls (snd (downloadToMp3 exWorldReset ?u (ascii ''Song'')
      (ascii ''downloads'') exEmpty)) = 0"
    "fst (downloadToMp3 exWorldReset ?u (ascii ''Song'') (ascii ''downloads'') exEmpty)
        = Inl (ascii ''socket hang up'')"
    using shouldFallback_reset by (simp_all add: z)
  from a' b' show ?thesis by (intro conjI)
qed

subsection \<open>The temporary file of the primary fetch\<close>

lemma files_stream_ticks: "files (foldl onStreamProgress s ticks) = files s
  \<and> unawaited (foldl onStreamProgress s ticks) = unawaited s"
  by (induction ticks arbitrary: s) (simp_all add: onStreamProgress_def emit_def split: prod.splits)

lemma tempPathOf_differs: "tempPathOf t \<noteq> t"
  by (simp add: tempPathOf_def ascii_def)



lemma downloadWithCore_ok:
  assumes "core_end (w_core w url) = EncodeEnd None" and "tmp \<noteq> t"
  shows "fst (downloadWithCore w url t tmp s) = Inr t
    \<and> files (snd (downloadWithCore w url t tmp s)) t = Some Complete
    \<and> files (snd (downloadWithCore w url t tmp s)) tmp = None"
  using assms
  by (simp add: downloadWithCore_def Let_def fsMove_def encoderWrites_def files_stream_ticks
      emit_def)


lemma downloadWithCore_others:
  assumes "p \<noteq> t" and "p \<noteq> tmp"
  shows "files (snd (downloadWithCore w url t tmp s)) p = files s p"
  using assms
  by (simp add: downloadWithCore_def Let_def startRemove_def encoderWrites_def fsMove_def
      files_stream_ticks emit_def split: core_end.splits option.splits)



















subsection \<open>The fraction reported by the primary fetch\<close>







section \<open>The orchestrator\<close>

subsection \<open>The session\<close>

lemma runTask_id:
  "res_id (fst (runTask w task s)) = task_id task
   \<and> res_query (fst (runTask w task s)) = task_query task"
  by (simp add: runTask_def Let_def failedResult_def
      split: resolution.splits prod.splits sum.splits)

lemma those_map_Some:
  "list_all (\<lambda>x. f x \<noteq> None) xs \<Longrightarrow> those (map f xs) = Some (map (\<lambda>x. the (f x)) xs)"
  by (induction xs) auto

lemma reachable_covers:
  assumes "reachable c tasks s"
  shows "set (waiting s) \<union> set (running s) \<union> {i. settled s i \<noteq> None} = {0..<length tasks}"
  using assms
proof (induction rule: reachable.induct)
  case start
  show ?case by (simp add: initial_def)
next
  case (after s s')
  from after.hyps(2) show ?case
  proof (cases rule: step.cases)
    case (admit i q)
    with after.IH show ?thesis by auto
  next
    case (settle_task i r w s0)
    with after.IH show ?thesis by auto
  qed
qed

lemma reachable_ids:
  assumes "reachable c tasks s" and "settled s i = Some r"
  shows "res_id r = task_id (tasks ! i) \<and> res_query r = task_query (tasks ! i)"
  using assms
proof (induction arbitrary: i r rule: reachable.induct)
  case start
  then show ?case by (simp add: initial_def)
next
  case (after s s')
  from after.hyps(2) show ?case
  proof (cases rule: step.cases)
    case (admit j q)
    with after.IH after.prems show ?thesis by simp
  next
    case (settle_task j r' w s0)
    show ?thesis
    proof (cases "i = j")
      case True
      with settle_task after.prems have "r = fst (runTask w (tasks ! j) s0)" by simp
      with True show ?thesis by (simp add: runTask_id)
    next
      case False
      with settle_task after.prems have "settled s i = Some r" by simp
      then show ?thesis by (rule after.IH)
    qed
  qed
qed

lemma reachable_distinct:
  assumes "reachable c tasks s"
  shows "distinct (waiting s @ running s)"
  using assms
proof (induction rule: reachable.induct)
  case start
  show ?case by (simp add: initial_def)
next
  case (after s s')
  from after.hyps(2) show ?case
  proof (cases rule: step.cases)
    case (admit i q)
    with after.IH show ?thesis by auto
  next
    case (settle_task i r w s0)
    with after.IH show ?thesis by (auto simp: distinct_removeAll)
  qed
qed

lemma reachable_bounded:
  assumes "reachable c tasks s"
  shows "length (running s) \<le> c"
  using assms
proof (induction rule: reachable.induct)
  case start
  show ?case by (simp add: initial_def)
next
  case (after s s')
  from after.hyps(2) show ?case
  proof (cases rule: step.cases)
    case (admit i q)
    then show ?thesis by (simp add: gateAdmits_def)
  next
    case (settle_task i r w s0)
    have "length (removeAll i (running s)) \<le> c"
      using length_removeAll_less_eq after.IH by (rule order_trans)
    with settle_task show ?thesis by simp
  qed
qed

lemma full_gate_keeps_queue:
  assumes "step c tasks s s'" and "length (running s) = c"
  shows "waiting s' = waiting s \<and> length (running s') < length (running s)"
  using assms(1)
proof (cases rule: step.cases)
  case (admit i q)
  with assms(2) show ?thesis by (simp add: gateAdmits_def)
next
  case (settle_task i r w s0)
  then show ?thesis by (simp add: length_removeAll_less)
qed

lemma step_decreases:
  assumes "step c tasks s s'"
  shows "2 * length (waiting s') + length (running s') < 2 * length (waiting s) + length (running s)"
  using assms
proof (cases rule: step.cases)
  case (admit i q)
  then show ?thesis by simp
next
  case (settle_task i r w s0)
  then show ?thesis by (simp add: length_removeAll_less)
qed

lemma step_exists:
  assumes "0 < c" and "\<not> finished s" and "length (running s) \<le> c"
  shows "\<exists>s'. step c tasks s s'"
proof (cases "running s")
  case Nil
  with assms(2) obtain i q where "waiting s = i # q"
    by (cases "waiting s") (simp_all add: finished_def)
  moreover from Nil assms(1) have "gateAdmits c s" by (simp add: gateAdmits_def)
  ultimately have "step c tasks s (s\<lparr>waiting := q, running := running s @ [i]\<rparr>)"
    by (rule step.admit)
  then show ?thesis ..
next
  case (Cons i rest)
  then have "i \<in> set (running s)" by simp
  then have "step c tasks s (s\<lparr>running := removeAll i (running s),
      settled := (settled s)(i \<mapsto> fst (runTask w (tasks ! i) s0))\<rparr>)" for w s0
    by (rule step.settle_task) simp
  then show ?thesis by blast
qed

lemma run_to_end:
  assumes "0 < c" and "reachable c tasks s"
  shows "\<exists>s'. reachable c tasks s' \<and> finished s'"
  using assms(2)
proof (induction "2 * length (waiting s) + length (running s)" arbitrary: s rule: less_induct)
  case less
  show ?case
  proof (cases "finished s")
    case True
    with less.prems show ?thesis by blast
  next
    case False
    from less.prems have "length (running s) \<le> c" by (rule reachable_bounded)
    with assms(1) False obtain s' where st: "step c tasks s s'"
      using step_exists by blast
    with less.prems have "reachable c tasks s'" by (rule reachable.after)
    moreover from st have
      "2 * length (waiting s') + length (running s') < 2 * length (waiting s) + length (running s)"
      by (rule step_decreases)
    ultimately show ?thesis by (rule less.hyps [rotated])
  qed
qed

lemma finished_results:
  assumes "reachable c tasks s" and "finished s"
  shows "\<exists>rs. promiseAll tasks s = Some rs \<and> length rs = length tasks
    \<and> map res_id rs = map task_id tasks \<and> map res_query rs = map task_query tasks"
proof -
  let ?n = "length tasks"
  let ?rs = "map (\<lambda>i. the (settled s i)) [0..<?n]"
  from reachable_covers [OF assms(1)] assms(2)
  have all: "{i. settled s i \<noteq> None} = {0..<?n}" by (simp add: finished_def)
  then have "list_all (\<lambda>i. settled s i \<noteq> None) [0..<?n]"
    by (auto simp: list_all_iff)
  then have "those (map (settled s) [0..<?n]) = Some ?rs" by (rule those_map_Some)
  with assms(2) have p: "promiseAll tasks s = Some ?rs" by (simp add: promiseAll_def)
  have ids: "res_id (the (settled s i)) = task_id (tasks ! i)
      \<and> res_query (the (settled s i)) = task_query (tasks ! i)" if "i < ?n" for i
  proof -
    from that all have "i \<in> {i. settled s i \<noteq> None}" by simp
    then obtain r where r: "settled s i = Some r" by auto
    from reachable_ids [OF assms(1) r] r show ?thesis by simp
  qed
  have "map res_id ?rs = map task_id tasks"
    by (rule nth_equalityI) (simp_all add: ids)
  moreover have "map res_query ?rs = map task_query tasks"
    by (rule nth_equalityI) (simp_all add: ids)
  ultimately show ?thesis using p by simp
qed

text \<open>
  C3: for every list of tasks and every positive concurrency, the session comes to an
  end (while it has not ended a step is possible, every step decreases a measure, so
  every order of admissions and completions ends), and at every end, whatever the
  order in which the tasks completed, \<open>Promise.all\<close> gives a list of results as long as
  the list of tasks whose ids (and queries) are those of the tasks in the order of the
  input.
\<close>

theorem runDownloadSession_results_in_order:
  assumes "0 < c"
  shows "(\<exists>s. reachable c tasks s \<and> finished s)
    \<and> (\<forall>s. reachable c tasks s \<and> \<not> finished s \<longrightarrow> (\<exists>s'. step c tasks s s'))
    \<and> (\<forall>s s'. step c tasks s s' \<longrightarrow>
          2 * length (waiting s') + length (running s')
            < 2 * length (waiting s) + length (running s))
    \<and> (\<forall>s. reachable c tasks s \<and> finished s \<longrightarrow>
          (\<exists>rs. promiseAll tasks s = Some rs \<and> length rs = length tasks
             \<and> map res_id rs = map task_id tasks \<and> map res_query rs = map task_query tasks))"
proof (intro conjI allI impI)
  show "\<exists>s. reachable c tasks s \<and> finished s"
    using assms reachable.start by (rule run_to_end)
next
  fix s assume "reachable c tasks s \<and> \<not> finished s"
  then show "\<exists>s'. step c tasks s s'"
    using assms step_exists reachable_bounded by blast
next
  fix s s' assume "step c tasks s s'"
  then show "2 * length (waiting s') + length (running s')
      < 2 * length (waiting s) + length (running s)"
    by (rule step_decreases)
next
  fix s assume "reachable c tasks s \<and> finished s"
  then show "\<exists>rs. promiseAll tasks s = Some rs \<and> length rs = length tasks
      \<and> map res_id rs = map task_id tasks \<and> map res_query rs = map task_query tasks"
    using finished_results by blast
qed

subsection \<open>A session of two tasks\<close>

lemma ex_initial:
  "initial exTasks = \<lparr>waiting = [0, 1], running = [], settled = (\<lambda>i. None)\<rparr>"
proof -
  have "[0..<length exTasks] = [0, 1]" by (simp add: exTasks_def upt_rec)
  then show ?thesis by (simp add: initial_def)
qed

lemma ex_admitted:
  assumes "0 < c"
  shows "reachable c exTasks exAdmitted"
proof -
  let ?s = "initial exTasks"
  have "waiting ?s = 0 # [1]" by (simp add: ex_initial)
  moreover from assms have "gateAdmits c ?s" by (simp add: gateAdmits_def ex_initial)
  ultimately have "step c exTasks ?s (?s\<lparr>waiting := [1], running := running ?s @ [0]\<rparr>)"
    by (rule step.admit)
  moreover have "?s\<lparr>waiting := [1], running := running ?s @ [0]\<rparr> = exAdmitted"
    by (simp add: ex_initial exAdmitted_def)
  ultimately have "step c exTasks ?s exAdmitted" by simp
  with reachable.start show ?thesis by (rule reachable.after)
qed

lemma ex_settled:
  assumes "1 < c"
  shows "reachable c exTasks
    (exSettled (fst (runTask w0 (exTasks ! 0) s0)) (fst (runTask w1 (exTasks ! 1) s1)))"
proof -
  let ?r0 = "fst (runTask w0 (exTasks ! 0) s0)" and ?r1 = "fst (runTask w1 (exTasks ! 1) s1)"
  let ?a = exAdmitted
  let ?b = "\<lparr>waiting = [], running = [0, 1], settled = (\<lambda>i. None)\<rparr> :: session"
  let ?c = "\<lparr>waiting = [], running = [0], settled = (\<lambda>i. None)(1 \<mapsto> ?r1)\<rparr> :: session"
  from assms have ra: "reachable c exTasks ?a" by (intro ex_admitted) simp
  have "waiting ?a = 1 # []" by (simp add: exAdmitted_def)
  moreover from assms have "gateAdmits c ?a" by (simp add: gateAdmits_def exAdmitted_def)
  ultimately have "step c exTasks ?a (?a\<lparr>waiting := [], running := running ?a @ [1]\<rparr>)"
    by (rule step.admit)
  moreover have "?a\<lparr>waiting := [], running := running ?a @ [1]\<rparr> = ?b"
    by (simp add: exAdmitted_def)
  ultimately have "step c exTasks ?a ?b" by simp
  with ra have rb: "reachable c exTasks ?b" by (rule reachable.after)
  have "1 \<in> set (running ?b)" by simp
  then have "step c exTasks ?b
      (?b\<lparr>running := removeAll 1 (running ?b), settled := (settled ?b)(1 \<mapsto> ?r1)\<rparr>)"
    by (rule step.settle_task) simp
  moreover have "?b\<lparr>running := removeAll 1 (running ?b), settled := (settled ?b)(1 \<mapsto> ?r1)\<rparr> = ?c"
    by simp
  ultimately have "step c exTasks ?b ?c" by simp
  with rb have rc: "reachable c exTasks ?c" by (rule reachable.after)
  have "0 \<in> set (running ?c)" by simp
  then have "step c exTasks ?c
      (?c\<lparr>running := removeAll 0 (running ?c), settled := (settled ?c)(0 \<mapsto> ?r0)\<rparr>)"
    by (rule step.settle_task) simp
  moreover have "?c\<lparr>running := removeAll 0 (running ?c), settled := (settled ?c)(0 \<mapsto> ?r0)\<rparr>
      = exSettled ?r0 ?r1"
    by (simp add: exSettled_def)
  ultimately have "step c exTasks ?c (exSettled ?r0 ?r1)" by simp
  with rc show ?thesis by (rule reachable.after)
qed

theorem runDownloadSession_results_in_order_witness:
  "reachable 2 exTasks
     (exSettled (fst (runTask exWorld (exTasks ! 0) exHave)) (fst (runTask exWorld (exTasks ! 1) exEmpty)))
   \<and> finished
     (exSettled (fst (runTask exWorld (exTasks ! 0) exHave)) (fst (runTask exWorld (exTasks ! 1) exEmpty)))
   \<and> (\<exists>rs. promiseAll exTasks
          (exSettled (fst (runTask exWorld (exTasks ! 0) exHave))
             (fst (runTask exWorld (exTasks ! 1) exEmpty))) = Some rs
        \<and> length rs = 2 \<and> map res_id rs = [1, 2])"
proof -
  let ?s = "exSettled (fst (runTask exWorld (exTasks ! 0) exHave))
     (fst (runTask exWorld (exTasks ! 1) exEmpty))"
  have r: "reachable 2 exTasks ?s" by (rule ex_settled) simp
  have f: "finished ?s" by (simp add: finished_def exSettled_def)
  have t: "length exTasks = 2" "map task_id exTasks = [1, 2]"
    by (simp_all add: exTasks_def exDirect_def exSearch_def)
  have "(0::nat) < 2" by simp
  from runDownloadSession_results_in_order [OF this, of exTasks] r f
  obtain rs where "promiseAll exTasks ?s = Some rs" and "length rs = length exTasks"
      and "map res_id rs = map task_id exTasks"
    by blast
  then have "promiseAll exTasks ?s = Some rs \<and> length rs = 2 \<and> map res_id rs = [1, 2]"
    by (simp only: t)
  then have "\<exists>rs. promiseAll exTasks ?s = Some rs \<and> length rs = 2 \<and> map res_id rs = [1, 2]" ..
  with r f show ?thesis by (intro conjI)
qed

subsection \<open>The admission gate\<close>

text \<open>
  C4: in every state the session can reach, at most \<open>c\<close> tasks are inside the limiter,
  that is, are executing \<open>runTask\<close>, of which the fetch is a stage; each of them is there
  once and none of them is still queued. While \<open>c\<close> tasks are running the only possible
  step is the completion of one of them: the queue stays as it is until a slot is free.
\<close>

theorem gate_bounds_running:
  assumes "reachable c tasks s"
  shows "length (running s) \<le> c
    \<and> distinct (running s)
    \<and> set (running s) \<inter> set (waiting s) = {}
    \<and> (\<forall>s'. step c tasks s s' \<and> length (running s) = c \<longrightarrow>
          waiting s' = waiting s \<and> length (running s') < length (running s))"
  using reachable_bounded [OF assms] reachable_distinct [OF assms] full_gate_keeps_queue
  by auto

theorem gate_bounds_running_witness:
  "reachable 1 exTasks exAdmitted
   \<and> length (running exAdmitted) = 1
   \<and> waiting exAdmitted = [1]
   \<and> distinct (running exAdmitted)
   \<and> set (running exAdmitted) \<inter> set (waiting exAdmitted) = {}"
proof -
  have r: "reachable 1 exTasks exAdmitted" by (rule ex_admitted) simp
  have l: "length (running exAdmitted) = 1" "waiting exAdmitted = [1]"
    by (simp_all add: exAdmitted_def)
  from gate_bounds_running [OF r]
  have "distinct (running exAdmitted)"
    and "set (running exAdmitted) \<inter> set (waiting exAdmitted) = {}"
    by blast+
  with r l show ?thesis by (intro conjI)
qed

end
